theory Spec2Isabelle
  imports Main
begin

section \<open>Strings\<close>

text \<open>
  Python strings are modelled as \<^typ>\<open>string\<close>, a list of 8-bit characters read as the
  code points below 256. On these code points the class \<^verbatim>\<open>\d\<close> of a Python
  \<^verbatim>\<open>str\<close> pattern is exactly \<^verbatim>\<open>0-9\<close>, and \<^verbatim>\<open>[A-Z]\<close>, \<^verbatim>\<open>[a-z]\<close> are the ASCII ranges.
\<close>

definition startswith :: "string \<Rightarrow> string \<Rightarrow> bool" where
  "startswith s p = (take (length p) s = p)"

definition endswith :: "string \<Rightarrow> string \<Rightarrow> bool" where
  "endswith s p = (length p \<le> length s \<and> drop (length s - length p) s = p)"

text \<open>
  \<^verbatim>\<open>s.replace(old, new)\<close>: every non-overlapping occurrence of \<^verbatim>\<open>old\<close>, found from left
  to right, is replaced. With an empty \<^verbatim>\<open>old\<close> Python puts \<^verbatim>\<open>new\<close> before every character
  and at the end.
\<close>

function str_replace :: "string \<Rightarrow> string \<Rightarrow> string \<Rightarrow> string" where
  "str_replace s old new =
     (if old = [] then new @ concat (map (\<lambda>c. c # new) s)
      else if s = [] then []
      else if startswith s old then new @ str_replace (drop (length old) s) old new
      else hd s # str_replace (tl s) old new)"
  by pat_completeness auto
termination
  by (relation "measure (\<lambda>(s, old, new). length s)") auto

declare str_replace.simps [simp del]

section \<open>Regular expressions\<close>

text \<open>
  The three patterns of \<^verbatim>\<open>clean_header\<close> are sequences of single character sets, greedy
  \<^verbatim>\<open>+\<close> repetitions of a character set and the anchor \<^verbatim>\<open>$\<close>, with unnested capture groups.
  They are matched as Python's backtracking matcher does: the alternatives of a pattern
  at a position are listed in the order the matcher tries them (longest repetition first),
  and the first one is the match.
\<close>

datatype cset = Lit char | Range char char | Digit | Union cset cset | Compl cset

fun cset_mem :: "cset \<Rightarrow> char \<Rightarrow> bool" where
  "cset_mem (Lit a) c = (c = a)"
| "cset_mem (Range lo hi) c = ((of_char lo :: nat) \<le> of_char c \<and> (of_char c :: nat) \<le> of_char hi)"
| "cset_mem Digit c = ((48 :: nat) \<le> of_char c \<and> (of_char c :: nat) \<le> 57)"
| "cset_mem (Union a b) c = (cset_mem a c \<or> cset_mem b c)"
| "cset_mem (Compl a) c = (\<not> cset_mem a c)"

datatype piece = One cset | Plus cset | Eos

text \<open>
  \<open>rmatch ps s\<close>: all the ways the pieces \<open>ps\<close> match a prefix of \<open>s\<close>, in the matcher's
  order; each with the text every piece consumed and the rest of \<open>s\<close>. \<^verbatim>\<open>$\<close> matches at the
  end of the string and before a newline that ends the string.
\<close>

fun rmatch :: "piece list \<Rightarrow> string \<Rightarrow> (string list \<times> string) list" where
  "rmatch [] s = [([], s)]"
| "rmatch (One cs # ps) s =
     (case s of
        [] \<Rightarrow> []
      | c # r \<Rightarrow> if cset_mem cs c then map (\<lambda>(gs, t). ([c] # gs, t)) (rmatch ps r) else [])"
| "rmatch (Plus cs # ps) s =
     concat (map (\<lambda>k. map (\<lambda>(gs, t). (take k s # gs, t)) (rmatch ps (drop k s)))
                 (rev [1 ..< Suc (length (takeWhile (cset_mem cs) s))]))"
| "rmatch (Eos # ps) s =
     (if s = [] \<or> s = [CHR 0x0A] then map (\<lambda>(gs, t). ([] # gs, t)) (rmatch ps s) else [])"

text \<open>A pattern: its chunks from left to right, each one a capture group or not.\<close>

type_synonym regex = "(bool \<times> piece list) list"

fun groups_of :: "regex \<Rightarrow> string list \<Rightarrow> string list" where
  "groups_of [] gs = []"
| "groups_of ((cap, ps) # rx) gs =
     (let g = concat (take (length ps) gs);
          rest = groups_of rx (drop (length ps) gs)
      in if cap then g # rest else rest)"

text \<open>A match: the capture groups, the matched text and the text after it.\<close>

type_synonym rematch = "string list \<times> string \<times> string"

definition match_at :: "regex \<Rightarrow> string \<Rightarrow> rematch option" where
  "match_at rx s =
     (case rmatch (concat (map snd rx)) s of
        [] \<Rightarrow> None
      | (gs, t) # _ \<Rightarrow> Some (groups_of rx gs, concat gs, t))"

text \<open>\<^verbatim>\<open>match.group(i)\<close> for \<open>i \<ge> 1\<close>.\<close>

definition match_group :: "rematch \<Rightarrow> nat \<Rightarrow> string" where
  "match_group m i = (if 1 \<le> i \<and> i \<le> length (fst m) then fst m ! (i - 1) else [])"

text \<open>\<^verbatim>\<open>re.search\<close>: the match at the leftmost position that has one.\<close>

fun re_search :: "regex \<Rightarrow> string \<Rightarrow> rematch option" where
  "re_search rx [] = match_at rx []"
| "re_search rx (c # cs) =
     (case match_at rx (c # cs) of
        Some m \<Rightarrow> Some m
      | None \<Rightarrow> re_search rx cs)"

text \<open>A replacement template such as \<^verbatim>\<open>r'\1 \2'\<close>.\<close>

datatype titem = TLit string | TGroup nat

definition expand :: "titem list \<Rightarrow> rematch \<Rightarrow> string" where
  "expand tpl m = concat (map (\<lambda>t. case t of TLit s \<Rightarrow> s | TGroup i \<Rightarrow> match_group m i) tpl)"

lemma rmatch_splits: "(gs, t) \<in> set (rmatch ps s) \<Longrightarrow> s = concat gs @ t"
proof (induction ps s arbitrary: gs t rule: rmatch.induct)
  case (1 s)
  then show ?case by simp
next
  case (2 cs ps s)
  then show ?case by (auto split: list.splits if_splits)
next
  case (3 cs ps s)
  then show ?case by fastforce
next
  case (4 ps s)
  then show ?case by (auto split: if_splits)
qed

lemma match_at_splits: "match_at rx s = Some (g, m, t) \<Longrightarrow> s = m @ t"
proof -
  assume a: "match_at rx s = Some (g, m, t)"
  then obtain gs rest where r: "rmatch (concat (map snd rx)) s = (gs, t) # rest" and m: "m = concat gs"
    by (auto simp: match_at_def split: list.splits)
  from r have "(gs, t) \<in> set (rmatch (concat (map snd rx)) s)" by simp
  with m show ?thesis by (simp add: rmatch_splits)
qed

text \<open>
  \<^verbatim>\<open>re.sub\<close>: the string is scanned from the left; a match is replaced by the expanded
  template and the scan goes on after it, a character with no match at it is copied.
  After an empty match the next character is copied.
\<close>

function re_sub :: "regex \<Rightarrow> titem list \<Rightarrow> string \<Rightarrow> string" where
  "re_sub rx tpl s =
     (case match_at rx s of
        None \<Rightarrow> (case s of [] \<Rightarrow> [] | c # cs \<Rightarrow> c # re_sub rx tpl cs)
      | Some m \<Rightarrow>
          if fst (snd m) = []
          then expand tpl m @ (case s of [] \<Rightarrow> [] | c # cs \<Rightarrow> c # re_sub rx tpl cs)
          else expand tpl m @ re_sub rx tpl (snd (snd m)))"
  by pat_completeness auto
termination
proof (relation "measure (\<lambda>(rx, tpl, s). length s)")
  show "wf (measure (\<lambda>(rx, tpl, s). length s))" by simp
next
  fix rx :: regex and tpl :: "titem list" and s :: string and x2 x21 x22
  assume "match_at rx s = None" "s = x21 # x22"
  then show "((rx, tpl, x22), rx, tpl, s) \<in> measure (\<lambda>(rx, tpl, s). length s)" by simp
next
  fix rx :: regex and tpl :: "titem list" and s :: string and m x21 x22
  assume "match_at rx s = Some m" "s = x21 # x22"
  then show "((rx, tpl, x22), rx, tpl, s) \<in> measure (\<lambda>(rx, tpl, s). length s)" by simp
next
  fix rx :: regex and tpl :: "titem list" and s :: string and m
  assume m: "match_at rx s = Some m" and ne: "fst (snd m) \<noteq> []"
  obtain g w t where mt: "m = (g, w, t)" by (cases m) auto
  with m have "s = w @ t" by (auto dest: match_at_splits)
  moreover from ne mt have "w \<noteq> []" by simp
  ultimately show "((rx, tpl, snd (snd m)), rx, tpl, s) \<in> measure (\<lambda>(rx, tpl, s). length s)"
    using mt by simp
qed

declare re_sub.simps [simp del]

section \<open>Text normalizer\<close>

text \<open>The character set \<^verbatim>\<open>[^.}]\<close> and the pattern \<^verbatim>\<open>\.([^.}]+)}$\<close>.\<close>

definition seg_chars :: cset where
  "seg_chars = Compl (Union (Lit CHR ''.'') (Lit CHR ''}''))"

definition rx_last_segment :: regex where
  "rx_last_segment =
     [(False, [One (Lit CHR ''.'')]),
      (True, [Plus seg_chars]),
      (False, [One (Lit CHR ''}''), Eos])]"

text \<open>The pattern \<^verbatim>\<open>([A-Z]+)([A-Z][a-z])\<close>.\<close>

definition rx_upper_run :: regex where
  "rx_upper_run =
     [(True, [Plus (Range CHR ''A'' CHR ''Z'')]),
      (True, [One (Range CHR ''A'' CHR ''Z''), One (Range CHR ''a'' CHR ''z'')])]"

text \<open>The pattern \<^verbatim>\<open>([a-z\d])([A-Z])\<close>.\<close>

definition rx_camel :: regex where
  "rx_camel =
     [(True, [One (Union (Range CHR ''a'' CHR ''z'') Digit)]),
      (True, [One (Range CHR ''A'' CHR ''Z'')])]"

text \<open>The template \<^verbatim>\<open>r'\1 \2'\<close>.\<close>

definition tpl_space :: "titem list" where
  "tpl_space = [TGroup 1, TLit '' '', TGroup 2]"

definition clean_header :: "string \<Rightarrow> string" where
  "clean_header header =
     (if header = [] then []
      else if startswith header ''{'' \<and> endswith header ''}'' then
        (case re_search rx_last_segment header of
           Some m \<Rightarrow>
             (let result = match_group m 1;
                  result = re_sub rx_upper_run tpl_space result;
                  result = re_sub rx_camel tpl_space result;
                  result = str_replace result ''_'' '' ''
              in result)
         | None \<Rightarrow> header)
      else header)"

definition clean_tag :: "string \<Rightarrow> string" where
  "clean_tag tag =
     (if tag = [] then []
      else
        (let tag = str_replace tag ''&lt;'' ''<'';
             tag = str_replace tag ''&gt;'' ''>'';
             tag = str_replace tag ''&amp;'' ''&'';
             tag = str_replace tag ''&quot;'' [CHR 0x22];
             tag = str_replace tag ''&apos;'' [CHR 0x27]
         in tag))"

section \<open>Elements and JSON values\<close>

text \<open>
  An \<^verbatim>\<open>xml.etree.ElementTree.Element\<close>: its tag, its attributes and its child elements
  in document order.
\<close>

datatype element = Element (tag: string) (attrib: "(string \<times> string) list") (children: "element list")

text \<open>\<^verbatim>\<open>item.get(key, default)\<close>.\<close>

definition get :: "element \<Rightarrow> string \<Rightarrow> string \<Rightarrow> string" where
  "get item k d = (case map_of (attrib item) k of None \<Rightarrow> d | Some v \<Rightarrow> v)"

text \<open>
  The values the parser builds: strings, lists and dicts. A Python dict keeps its keys in
  insertion order, so it is an association list with distinct keys.
\<close>

datatype json = JStr string | JList "json list" | JDict "(string \<times> json) list"

text \<open>
  \<^verbatim>\<open>d[k] = v\<close>: the value of a key that is present is replaced where the key stands, a new
  key goes to the end.
\<close>

fun dict_set :: "(string \<times> json) list \<Rightarrow> string \<Rightarrow> json \<Rightarrow> (string \<times> json) list" where
  "dict_set [] k v = [(k, v)]"
| "dict_set ((k', v') # d) k v = (if k' = k then (k', v) # d else (k', v') # dict_set d k v)"

text \<open>\<^verbatim>\<open>d.update(e)\<close>: every entry of \<^verbatim>\<open>e\<close> is assigned into \<^verbatim>\<open>d\<close>, in the order of \<^verbatim>\<open>e\<close>.\<close>

definition dict_update :: "(string \<times> json) list \<Rightarrow> (string \<times> json) list \<Rightarrow> (string \<times> json) list" where
  "dict_update d e = foldl (\<lambda>d (k, v). dict_set d k v) d e"

text \<open>The truth value of a value in a condition: an empty string, list or dict is false.\<close>

fun truthy :: "json \<Rightarrow> bool" where
  "truthy (JStr s) = (s \<noteq> [])"
| "truthy (JList xs) = (xs \<noteq> [])"
| "truthy (JDict d) = (d \<noteq> [])"

section \<open>Menu tree classifier\<close>

text \<open>
  The exceptions: \<^verbatim>\<open>ET.ParseError\<close> of the XML parser, the interpreter's \<^verbatim>\<open>RecursionError\<close>, and
  any other one.
\<close>

datatype error = ParseError string | RecursionError | OtherError string

text \<open>The dict \<^verbatim>\<open>item_data\<close> of a leaf item, with the \<^verbatim>\<open>Icon\<close> attribute as its label.\<close>

definition item_data :: "element \<Rightarrow> string \<Rightarrow> string \<Rightarrow> json" where
  "item_data item clean_tag_text clean_header_text =
     (let d = [(''tag'', JStr clean_tag_text), (''description'', JStr clean_header_text)];
          icon = get item ''Icon'' []
      in JDict (if icon \<noteq> [] then dict_set d ''label'' (JStr icon) else d))"

text \<open>
  The body of the loop over the children, given the result of the recursive call on the
  child: the state is the pair of \<^verbatim>\<open>leaf_items\<close> and \<^verbatim>\<open>subcategories\<close>.
\<close>

definition bucket_child ::
  "json list \<times> (string \<times> json) list \<Rightarrow> element \<Rightarrow> json option \<Rightarrow> json list \<times> (string \<times> json) list" where
  "bucket_child acc child parsed_child =
     (case parsed_child of
        None \<Rightarrow> acc
      | Some p \<Rightarrow>
          (let leaf_items = fst acc;
               subcategories = snd acc;
               child_header = clean_header (get child ''Header'' []);
               child_click = get child ''Click'' [];
               child_tag = get child ''Tag'' []
           in if child_click = ''Button_Click'' \<and> child_tag \<noteq> []
              then (leaf_items @ [p], subcategories)
              else if child_header \<noteq> []
                   then (leaf_items, dict_set subcategories child_header p)
                   else (leaf_items, subcategories)))"

text \<open>The decision on the shape of a container's result.\<close>

definition structure_result :: "json list \<Rightarrow> (string \<times> json) list \<Rightarrow> json option" where
  "structure_result leaf_items subcategories =
     (if leaf_items \<noteq> [] \<and> subcategories \<noteq> []
      then Some (JDict (dict_update [(''direct'', JList leaf_items)] subcategories))
      else if leaf_items \<noteq> [] \<and> subcategories = [] then Some (JList leaf_items)
      else if subcategories \<noteq> [] \<and> leaf_items = [] then Some (JDict subcategories)
      else None)"

text \<open>
  \<^verbatim>\<open>parse_menu_item_recursive\<close>, as the value the call returns when it returns; \<open>None\<close> is
  Python's \<^verbatim>\<open>None\<close>. The interpreter's limit on the depth of the recursion is in
  \<open>parse_menu_item_limited\<close> below.
\<close>

function parse_menu_item_recursive :: "element \<Rightarrow> json option" where
  "parse_menu_item_recursive item =
     (if endswith (tag item) ''Separator'' then None
      else
        (let header = get item ''Header'' [];
             tg = get item ''Tag'' [];
             click = get item ''Click'' [];
             tooltip = get item ''ToolTip'' [];
             clean_header_text = clean_header header;
             clean_tag_text = clean_tag tg;
             clean_tooltip_text = (if tooltip \<noteq> [] then clean_header tooltip else [])
         in if click = ''Button_Click'' \<and> tg \<noteq> []
            then Some (item_data item clean_tag_text clean_header_text)
            else
              (let kids = filter (\<lambda>child. endswith (tag child) ''MenuItem'') (children item)
               in if kids = [] then None
                  else
                    (let acc = foldl (\<lambda>acc child. bucket_child acc child (parse_menu_item_recursive child))
                                     ([], []) kids
                     in structure_result (fst acc) (snd acc)))))"
  by pat_completeness auto
termination
proof (relation "measure size")
  show "wf (measure size)" by simp
next
  fix item :: element and child :: element
    and header tg click tooltip clean_header_text clean_tag_text clean_tooltip_text :: string
    and kids :: "element list" and acc :: "json list \<times> (string \<times> json) list"
  assume "kids = filter (\<lambda>child. endswith (tag child) ''MenuItem'') (children item)"
    and "child \<in> set kids"
  then have "child \<in> set (children item)" by simp
  then have "size child < Suc (size_list size (children item))"
    using size_list_estimation' [of child "children item" "size child" size] by simp
  then have "size child < size item"
    by (cases item) simp
  then show "(child, item) \<in> measure size" by simp
qed

declare parse_menu_item_recursive.simps [simp del]

text \<open>
  \<^verbatim>\<open>parse_menu_item_recursive\<close> under the interpreter's recursion limit. The first argument is
  the number of nested calls of the function that the limit still allows; the frames of
  the helper calls of one call are counted with it. With none left the call raises
  \<^verbatim>\<open>RecursionError\<close>; an exception raised by the recursive call on a child leaves the loop
  and the function.
\<close>

fun parse_menu_item_limited :: "nat \<Rightarrow> element \<Rightarrow> error + json option" where
  "parse_menu_item_limited 0 item = Inl RecursionError"
| "parse_menu_item_limited (Suc n) item =
     (if endswith (tag item) ''Separator'' then Inr None
      else
        (let header = get item ''Header'' [];
             tg = get item ''Tag'' [];
             click = get item ''Click'' [];
             tooltip = get item ''ToolTip'' [];
             clean_header_text = clean_header header;
             clean_tag_text = clean_tag tg;
             clean_tooltip_text = (if tooltip \<noteq> [] then clean_header tooltip else [])
         in if click = ''Button_Click'' \<and> tg \<noteq> []
            then Inr (Some (item_data item clean_tag_text clean_header_text))
            else
              (let kids = filter (\<lambda>child. endswith (tag child) ''MenuItem'') (children item)
               in if kids = [] then Inr None
                  else
                    (case foldl (\<lambda>acc child.
                                   case acc of
                                     Inl e \<Rightarrow> Inl e
                                   | Inr a \<Rightarrow>
                                       (case parse_menu_item_limited n child of
                                          Inl e \<Rightarrow> Inl e
                                        | Inr parsed_child \<Rightarrow> Inr (bucket_child a child parsed_child)))
                                (Inr ([], [])) kids of
                       Inl e \<Rightarrow> Inl e
                     | Inr acc \<Rightarrow> Inr (structure_result (fst acc) (snd acc))))))"

declare parse_menu_item_limited.simps [simp del]

section \<open>Root-level pass\<close>

text \<open>
  The body of the loop over the children of the root; the state is \<^verbatim>\<open>result\<close>. The call of
  \<^verbatim>\<open>parse_menu_item_recursive\<close> is under the recursion limit, and its exception leaves the
  loop body. The calls of \<^verbatim>\<open>print\<close> are left out.
\<close>

definition root_step :: "nat \<Rightarrow> (string \<times> json) list \<Rightarrow> element \<Rightarrow> error + (string \<times> json) list" where
  "root_step limit result menu_item =
     (if \<not> endswith (tag menu_item) ''MenuItem'' then Inr result
      else
        (let header = get menu_item ''Header'' []
         in if header = [] then Inr result
            else
              (let section_key = clean_header header
               in case parse_menu_item_limited limit menu_item of
                    Inl e \<Rightarrow> Inl e
                  | Inr parsed_section \<Rightarrow>
                      Inr (case parsed_section of
                             None \<Rightarrow> result
                           | Some p \<Rightarrow> if truthy p then dict_set result section_key p else result))))"

definition wrap_content :: "string \<Rightarrow> string" where
  "wrap_content xaml_content =
     ''<root xmlns:x='' @ [CHR 0x27] @ ''http://schemas.microsoft.com/winfx/2006/xaml'' @ [CHR 0x27]
     @ '' xmlns:wpf='' @ [CHR 0x27] @ ''clr-namespace:Calcpad.Wpf'' @ [CHR 0x27] @ ''>''
     @ xaml_content @ ''</root>''"

text \<open>
  \<^verbatim>\<open>parse_xaml_insert_menu\<close>. The XML parser \<^verbatim>\<open>ET.fromstring\<close> is a library function and a
  parameter here: it returns the root element or raises. The first parameter is the number
  of nested calls of \<^verbatim>\<open>parse_menu_item_recursive\<close> that the recursion limit allows inside this
  call. An exception of the parser or of the loop is caught by one of the two \<^verbatim>\<open>except\<close>
  clauses, and both return the empty dict.
\<close>

definition parse_xaml_insert_menu ::
  "nat \<Rightarrow> (string \<Rightarrow> error + element) \<Rightarrow> string \<Rightarrow> (string \<times> json) list" where
  "parse_xaml_insert_menu limit fromstring xaml_content =
     (let wrapped_content = wrap_content xaml_content
      in case fromstring wrapped_content of
           Inl e \<Rightarrow> []
         | Inr root \<Rightarrow>
             (case foldl (\<lambda>acc menu_item.
                            case acc of
                              Inl e \<Rightarrow> Inl e
                            | Inr result \<Rightarrow> root_step limit result menu_item)
                         (Inr []) (children root) of
                Inl e \<Rightarrow> []
              | Inr result \<Rightarrow> result))"

section \<open>Notions used in the statements\<close>

text \<open>
  The leaf test of the source, \<^verbatim>\<open>click == 'Button_Click' and tag\<close>, which it applies to the
  item itself and again to each child.
\<close>

definition passes_leaf_test :: "element \<Rightarrow> bool" where
  "passes_leaf_test item = (get item ''Click'' [] = ''Button_Click'' \<and> get item ''Tag'' [] \<noteq> [])"

text \<open>The leaf action of an item: what the source returns for an item that passes the leaf test.\<close>

definition leaf_action :: "element \<Rightarrow> json" where
  "leaf_action item =
     item_data item (clean_tag (get item ''Tag'' [])) (clean_header (get item ''Header'' []))"

text \<open>The list \<^verbatim>\<open>children\<close> of the source: the child elements whose tag ends in \<^verbatim>\<open>MenuItem\<close>.\<close>

definition menu_children :: "element \<Rightarrow> element list" where
  "menu_children item = filter (\<lambda>child. endswith (tag child) ''MenuItem'') (children item)"

text \<open>The loop over the children, from a state \<open>acc\<close>; and its final state for an item.\<close>

definition run_children ::
  "element list \<Rightarrow> json list \<times> (string \<times> json) list \<Rightarrow> json list \<times> (string \<times> json) list" where
  "run_children kids acc =
     foldl (\<lambda>acc child. bucket_child acc child (parse_menu_item_recursive child)) acc kids"

definition buckets :: "element \<Rightarrow> json list \<times> (string \<times> json) list" where
  "buckets item = run_children (menu_children item) ([], [])"

text \<open>The cleaned header of a child, the key of its subcategory.\<close>

definition header_key :: "element \<Rightarrow> string" where
  "header_key child = clean_header (get child ''Header'' [])"

text \<open>
  The children that become subcategories: they fail the leaf test, their classification is
  not null and their cleaned header is not empty.
\<close>

definition subcategory_children :: "element list \<Rightarrow> element list" where
  "subcategory_children kids =
     filter (\<lambda>c. \<not> passes_leaf_test c \<and> parse_menu_item_recursive c \<noteq> None \<and> header_key c \<noteq> []) kids"

text \<open>The elements of a list in the order of their first occurrences.\<close>

fun first_seen :: "'a list \<Rightarrow> 'a list" where
  "first_seen [] = []"
| "first_seen (x # xs) = x # first_seen (filter (\<lambda>y. y \<noteq> x) xs)"

text \<open>
  The LeafAction of the specification: a dict with the keys \<^verbatim>\<open>tag\<close> and \<^verbatim>\<open>description\<close>, and
  possibly \<^verbatim>\<open>label\<close>, in this order, all with string values.
\<close>

fun is_str :: "json \<Rightarrow> bool" where
  "is_str (JStr s) = True"
| "is_str (JList xs) = False"
| "is_str (JDict d) = False"

definition is_leaf_action :: "json \<Rightarrow> bool" where
  "is_leaf_action v =
     (case v of
        JDict d \<Rightarrow>
          (map fst d = [''tag'', ''description''] \<or> map fst d = [''tag'', ''description'', ''label''])
          \<and> list_all is_str (map snd d)
      | _ \<Rightarrow> False)"

definition is_leaf_result :: "json option \<Rightarrow> bool" where
  "is_leaf_result r = (case r of None \<Rightarrow> False | Some v \<Rightarrow> is_leaf_action v)"

text \<open>
  The depth of the recursion of \<^verbatim>\<open>parse_menu_item_recursive\<close> on an item: the number of nested
  calls that the call on the item makes, itself included.
\<close>

function call_depth :: "element \<Rightarrow> nat" where
  "call_depth item =
     (if endswith (tag item) ''Separator'' \<or> passes_leaf_test item then 1
      else Suc (foldl max 0 (map call_depth (menu_children item))))"
  by pat_completeness auto
termination
proof (relation "measure size")
  show "wf (measure size)" by simp
next
  fix item child :: element
  assume "child \<in> set (menu_children item)"
  then have "child \<in> set (children item)" by (simp add: menu_children_def)
  then have "size child < Suc (size_list size (children item))"
    using size_list_estimation' [of child "children item" "size child" size] by simp
  then have "size child < size item"
    by (cases item) simp
  then show "(child, item) \<in> measure size" by simp
qed

declare call_depth.simps [simp del]

text \<open>The children of the root that the root-level pass classifies.\<close>

definition classified :: "element \<Rightarrow> bool" where
  "classified menu_item = (endswith (tag menu_item) ''MenuItem'' \<and> get menu_item ''Header'' [] \<noteq> [])"

text \<open>
  The whitespace-trimmed form of a string, as \<^verbatim>\<open>str.strip()\<close> gives it; the source does not
  trim.
\<close>

definition is_space :: "char \<Rightarrow> bool" where
  "is_space c = ((of_char c :: nat) \<in> set [9, 10, 11, 12, 13, 28, 29, 30, 31, 32, 133, 160])"

definition strip :: "string \<Rightarrow> string" where
  "strip s = rev (dropWhile is_space (rev (dropWhile is_space s)))"

text \<open>Example trees: a clickable menu item, and a menu item that only has a header and children.\<close>

definition leaf_node :: "string \<Rightarrow> string \<Rightarrow> element" where
  "leaf_node h t = Element ''MenuItem'' [(''Header'', h), (''Tag'', t), (''Click'', ''Button_Click'')] []"

definition group_node :: "string \<Rightarrow> element list \<Rightarrow> element" where
  "group_node h cs = Element ''MenuItem'' [(''Header'', h)] cs"

section \<open>Properties of the text normalizer\<close>

lemma str_replace_Nil_iff:
  assumes "old \<noteq> []" and "new \<noteq> []"
  shows "str_replace s old new = [] \<longleftrightarrow> s = []"
proof (cases "s = []")
  case True
  with assms show ?thesis by (simp add: str_replace.simps)
next
  case False
  with assms show ?thesis by (subst str_replace.simps) simp
qed

lemma clean_tag_Nil_iff: "clean_tag s = [] \<longleftrightarrow> s = []"
  by (simp add: clean_tag_def Let_def str_replace_Nil_iff)

subsection \<open>The search for the last segment\<close>

lemma rmatch_Nil_iff: "(gs, r) \<in> set (rmatch [] s) \<longleftrightarrow> gs = [] \<and> r = s"
  by auto

lemma rmatch_One_iff:
  "(gs, r) \<in> set (rmatch (One cs # ps) s) \<longleftrightarrow>
   (\<exists>c s' gs'. s = c # s' \<and> cset_mem cs c \<and> gs = [c] # gs' \<and> (gs', r) \<in> set (rmatch ps s'))"
  by (cases s) auto

lemma rmatch_Eos_iff:
  "(gs, r) \<in> set (rmatch (Eos # ps) s) \<longleftrightarrow>
   ((s = [] \<or> s = [CHR 0x0A]) \<and> (\<exists>gs'. gs = [] # gs' \<and> (gs', r) \<in> set (rmatch ps s)))"
  by auto

lemma rmatch_Plus_iff:
  "(gs, r) \<in> set (rmatch (Plus cs # ps) s) \<longleftrightarrow>
   (\<exists>k gs'. 1 \<le> k \<and> k \<le> length (takeWhile (cset_mem cs) s) \<and> gs = take k s # gs'
       \<and> (gs', r) \<in> set (rmatch ps (drop k s)))"
proof -
  let ?n = "length (takeWhile (cset_mem cs) s)"
  have "(gs, r) \<in> set (rmatch (Plus cs # ps) s) \<longleftrightarrow>
        (\<exists>k \<in> {1 ..< Suc ?n}. (gs, r) \<in> (\<lambda>(gs, t). (take k s # gs, t)) ` set (rmatch ps (drop k s)))"
    by (simp del: upt_Suc)
  also have "\<dots> \<longleftrightarrow> (\<exists>k gs'. 1 \<le> k \<and> k \<le> ?n \<and> gs = take k s # gs'
       \<and> (gs', r) \<in> set (rmatch ps (drop k s)))"
  proof
    assume "\<exists>k \<in> {1 ..< Suc ?n}. (gs, r) \<in> (\<lambda>(gs, t). (take k s # gs, t)) ` set (rmatch ps (drop k s))"
    then obtain k x where k: "1 \<le> k" "k \<le> ?n" and x: "x \<in> set (rmatch ps (drop k s))"
      and e: "(gs, r) = (\<lambda>(gs, t). (take k s # gs, t)) x"
      by auto
    obtain gs' t where xt: "x = (gs', t)" by (cases x)
    with e have "gs = take k s # gs'" "r = t" by simp_all
    with k x xt show "\<exists>k gs'. 1 \<le> k \<and> k \<le> ?n \<and> gs = take k s # gs' \<and> (gs', r) \<in> set (rmatch ps (drop k s))"
      by blast
  next
    assume "\<exists>k gs'. 1 \<le> k \<and> k \<le> ?n \<and> gs = take k s # gs' \<and> (gs', r) \<in> set (rmatch ps (drop k s))"
    then obtain k gs' where k: "1 \<le> k" "k \<le> ?n" and g: "gs = take k s # gs'"
      and m: "(gs', r) \<in> set (rmatch ps (drop k s))"
      by blast
    from g m have "(gs, r) \<in> (\<lambda>(gs, t). (take k s # gs, t)) ` set (rmatch ps (drop k s))"
      by (intro image_eqI [of _ _ "(gs', r)"]) simp_all
    moreover from k have "k \<in> {1 ..< Suc ?n}" by simp
    ultimately show "\<exists>k \<in> {1 ..< Suc ?n}. (gs, r) \<in> (\<lambda>(gs, t). (take k s # gs, t)) ` set (rmatch ps (drop k s))"
      by blast
  qed
  finally show ?thesis .
qed

lemma rmatch_One_hit:
  "cset_mem cs c \<Longrightarrow> rmatch (One cs # ps) (c # s) = map (\<lambda>(gs, t). ([c] # gs, t)) (rmatch ps s)"
  by simp

lemma rmatch_Plus_greedy:
  assumes "takeWhile (cset_mem cs) s = seg" and "seg \<noteq> []"
  shows "\<exists>rest. rmatch (Plus cs # ps) s
           = map (\<lambda>(gs, t). (seg # gs, t)) (rmatch ps (drop (length seg) s)) @ rest"
proof -
  from assms(2) obtain n where n: "length seg = Suc n" by (cases seg) auto
  have tk: "take (length seg) s = seg"
    using assms(1) takeWhile_eq_take [of "cset_mem cs" s] by simp
  have "rev [1 ..< Suc (length seg)] = length seg # rev [1 ..< length seg]"
    using n by simp
  then have "rmatch (Plus cs # ps) s
      = map (\<lambda>(gs, t). (take (length seg) s # gs, t)) (rmatch ps (drop (length seg) s))
        @ concat (map (\<lambda>k. map (\<lambda>(gs, t). (take k s # gs, t)) (rmatch ps (drop k s)))
                      (rev [1 ..< length seg]))"
    by (simp only: rmatch.simps assms(1) list.map concat.simps)
  with tk show ?thesis by auto
qed

declare rmatch.simps [simp del]

lemma seg_chars_mem [simp]: "cset_mem seg_chars c \<longleftrightarrow> c \<noteq> CHR ''.'' \<and> c \<noteq> CHR ''}''"
  by (simp add: seg_chars_def)

lemma rx_last_segment_pieces:
  "concat (map snd rx_last_segment) = [One (Lit CHR ''.''), Plus seg_chars, One (Lit CHR ''}''), Eos]"
  by (simp add: rx_last_segment_def)

lemma rmatch_last_segment_hit:
  assumes "seg \<noteq> []" and "CHR ''.'' \<notin> set seg" and "CHR ''}'' \<notin> set seg"
  shows "\<exists>rest. rmatch [One (Lit CHR ''.''), Plus seg_chars, One (Lit CHR ''}''), Eos]
                  (CHR ''.'' # seg @ [CHR ''}''])
          = ([[CHR ''.''], seg, [CHR ''}''], []], []) # rest"
proof -
  have tw: "takeWhile (cset_mem seg_chars) (seg @ [CHR ''}'']) = seg"
    using assms(2,3) by (subst takeWhile_append2) auto
  have tail: "rmatch [One (Lit CHR ''}''), Eos] [CHR ''}''] = [([[CHR ''}''], []], [])]"
    by (simp add: rmatch.simps)
  from rmatch_Plus_greedy [OF tw assms(1), of "[One (Lit CHR ''}''), Eos]"] obtain rest where
    "rmatch [Plus seg_chars, One (Lit CHR ''}''), Eos] (seg @ [CHR ''}''])
       = map (\<lambda>(gs, t). (seg # gs, t)) (rmatch [One (Lit CHR ''}''), Eos] (drop (length seg) (seg @ [CHR ''}'']))) @ rest"
    by blast
  with tail have "rmatch [Plus seg_chars, One (Lit CHR ''}''), Eos] (seg @ [CHR ''}''])
       = ([seg, [CHR ''}''], []], []) # rest"
    by simp
  then show ?thesis by (simp add: rmatch_One_hit)
qed

lemma match_at_last_segment_hit:
  assumes "seg \<noteq> []" and "CHR ''.'' \<notin> set seg" and "CHR ''}'' \<notin> set seg"
  shows "match_at rx_last_segment (CHR ''.'' # seg @ [CHR ''}''])
         = Some ([seg], CHR ''.'' # seg @ [CHR ''}''], [])"
proof -
  from rmatch_last_segment_hit [OF assms] obtain rest where
    "rmatch [One (Lit CHR ''.''), Plus seg_chars, One (Lit CHR ''}''), Eos] (CHR ''.'' # seg @ [CHR ''}''])
       = ([[CHR ''.''], seg, [CHR ''}''], []], []) # rest" ..
  moreover have "groups_of rx_last_segment [[CHR ''.''], seg, [CHR ''}''], []] = [seg]"
    by (simp add: rx_last_segment_def)
  ultimately show ?thesis
    by (simp add: match_at_def rx_last_segment_pieces)
qed

lemma take_le_takeWhile:
  assumes "k \<le> length (takeWhile P xs)" and "c \<in> set (take k xs)"
  shows "P c"
proof -
  have "take k xs = take k (takeWhile P xs @ dropWhile P xs)" by simp
  also have "\<dots> = take k (takeWhile P xs)" using assms(1) by (simp del: takeWhile_dropWhile_id)
  finally have "c \<in> set (takeWhile P xs)" using assms(2) by (auto dest: in_set_takeD)
  then show "P c" by (auto dest: set_takeWhileD)
qed

lemma rmatch_last_segment_sound:
  assumes "(gs, r) \<in> set (rmatch [One (Lit CHR ''.''), Plus seg_chars, One (Lit CHR ''}''), Eos] t)"
  shows "\<exists>g. t = CHR ''.'' # g @ CHR ''}'' # r \<and> (r = [] \<or> r = [CHR 0x0A])
             \<and> CHR ''.'' \<notin> set g \<and> CHR ''}'' \<notin> set g"
proof -
  from assms obtain t1 gs1 where t: "t = CHR ''.'' # t1"
    and g1: "(gs1, r) \<in> set (rmatch [Plus seg_chars, One (Lit CHR ''}''), Eos] t1)"
    unfolding rmatch_One_iff by auto
  from g1 obtain k gs2 where k: "k \<le> length (takeWhile (cset_mem seg_chars) t1)"
    and g2: "(gs2, r) \<in> set (rmatch [One (Lit CHR ''}''), Eos] (drop k t1))"
    unfolding rmatch_Plus_iff by auto
  from g2 obtain t2 gs3 where d: "drop k t1 = CHR ''}'' # t2"
    and g3: "(gs3, r) \<in> set (rmatch [Eos] t2)"
    unfolding rmatch_One_iff by auto
  from g3 have r: "r = [] \<or> r = [CHR 0x0A]" and tr: "t2 = r"
    unfolding rmatch_Eos_iff rmatch_Nil_iff by auto
  have "t1 = take k t1 @ drop k t1" by simp
  with d tr have t1: "t1 = take k t1 @ CHR ''}'' # r" by simp
  have "\<forall>c \<in> set (take k t1). cset_mem seg_chars c"
    using take_le_takeWhile [OF k] by blast
  then have "CHR ''.'' \<notin> set (take k t1) \<and> CHR ''}'' \<notin> set (take k t1)" by auto
  with t t1 r show ?thesis by (intro exI [of _ "take k t1"]) auto
qed

lemma match_at_last_segment_miss:
  assumes "u \<noteq> []" and "CHR ''.'' \<notin> set seg"
  shows "match_at rx_last_segment (u @ CHR ''.'' # seg @ [CHR ''}'']) = None"
proof (rule ccontr)
  assume "match_at rx_last_segment (u @ CHR ''.'' # seg @ [CHR ''}'']) \<noteq> None"
  then obtain gs r where
    "(gs, r) \<in> set (rmatch [One (Lit CHR ''.''), Plus seg_chars, One (Lit CHR ''}''), Eos]
                         (u @ CHR ''.'' # seg @ [CHR ''}'']))"
    by (auto simp: match_at_def rx_last_segment_pieces split: list.splits)
  from rmatch_last_segment_sound [OF this] obtain g where
    eq: "u @ CHR ''.'' # seg @ [CHR ''}''] = CHR ''.'' # g @ CHR ''}'' # r"
    and r: "r = [] \<or> r = [CHR 0x0A]" and g: "CHR ''.'' \<notin> set g"
    by blast
  have "last (u @ CHR ''.'' # seg @ [CHR ''}'']) = CHR ''}''" by simp
  with eq have "last (CHR ''.'' # g @ CHR ''}'' # r) = CHR ''}''" by simp
  with r have "r = []" by auto
  with eq have "(u @ CHR ''.'' # seg) @ [CHR ''}''] = (CHR ''.'' # g) @ [CHR ''}'']" by simp
  then have "u @ CHR ''.'' # seg = CHR ''.'' # g" by (simp only: append_same_eq)
  then have "CHR ''.'' \<in> set g" using assms(1)
    by (cases u) auto
  with g show False by simp
qed

lemma re_search_skip:
  assumes "\<And>u1 u2. u = u1 @ u2 \<Longrightarrow> u2 \<noteq> [] \<Longrightarrow> match_at rx (u2 @ c # w) = None"
  shows "re_search rx (u @ c # w) = re_search rx (c # w)"
  using assms
proof (induction u)
  case Nil
  then show ?case by simp
next
  case (Cons a u)
  have "match_at rx ((a # u) @ c # w) = None"
    by (rule Cons.prems [of "[]"]) simp_all
  moreover have "re_search rx (u @ c # w) = re_search rx (c # w)"
  proof (rule Cons.IH)
    fix u1 u2 assume "u = u1 @ u2" "u2 \<noteq> []"
    then show "match_at rx (u2 @ c # w) = None"
      using Cons.prems [of "a # u1" u2] by simp
  qed
  ultimately show ?case by simp
qed

lemma re_search_last_segment:
  assumes "seg \<noteq> []" and "CHR ''.'' \<notin> set seg" and "CHR ''}'' \<notin> set seg"
  shows "re_search rx_last_segment (pre @ CHR ''.'' # seg @ [CHR ''}''])
         = Some ([seg], CHR ''.'' # seg @ [CHR ''}''], [])"
proof -
  have "re_search rx_last_segment (pre @ CHR ''.'' # seg @ [CHR ''}''])
        = re_search rx_last_segment (CHR ''.'' # seg @ [CHR ''}''])"
    by (rule re_search_skip) (simp add: match_at_last_segment_miss assms(2))
  also have "\<dots> = Some ([seg], CHR ''.'' # seg @ [CHR ''}''], [])"
    using match_at_last_segment_hit [OF assms] by simp
  finally show ?thesis .
qed


subsection \<open>The characters of a cleaned header\<close>

lemma set_groups_of: "g \<in> set (groups_of rx gs) \<Longrightarrow> set g \<subseteq> set (concat gs)"
proof (induction rx gs rule: groups_of.induct)
  case (1 gs)
  then show ?case by simp
next
  case (2 cap ps rx gs)
  have a: "set (concat (take (length ps) gs)) \<subseteq> set (concat gs)"
    using set_take_subset [of "length ps" gs] by auto
  have b: "set (concat (drop (length ps) gs)) \<subseteq> set (concat gs)"
    using set_drop_subset [of "length ps" gs] by auto
  from "2.prems" have "g = concat (take (length ps) gs) \<or> g \<in> set (groups_of rx (drop (length ps) gs))"
    by (auto simp: Let_def split: if_splits)
  then show ?case
  proof
    assume "g = concat (take (length ps) gs)"
    with a show ?thesis by simp
  next
    assume "g \<in> set (groups_of rx (drop (length ps) gs))"
    then have "set g \<subseteq> set (concat (drop (length ps) gs))" by (rule "2.IH" [OF refl])
    with b show ?thesis by blast
  qed
qed

lemma set_match_group: "match_at rx s = Some m \<Longrightarrow> set (match_group m i) \<subseteq> set (fst (snd m))"
proof -
  assume "match_at rx s = Some m"
  then obtain gs t rest where m: "m = (groups_of rx gs, concat gs, t)"
    by (auto simp: match_at_def split: list.splits)
  show ?thesis
  proof (cases "1 \<le> i \<and> i \<le> length (fst m)")
    case True
    then have "i - 1 < length (groups_of rx gs)" using m by auto
    then have "groups_of rx gs ! (i - 1) \<in> set (groups_of rx gs)" by (rule nth_mem)
    with True have "match_group m i \<in> set (groups_of rx gs)"
      using m by (simp add: match_group_def)
    then have "set (match_group m i) \<subseteq> set (concat gs)" by (rule set_groups_of)
    with m show ?thesis by simp
  next
    case False
    then have "match_group m i = []" by (auto simp: match_group_def)
    then show ?thesis by simp
  qed
qed

lemma set_expand_tpl_space:
  "match_at rx s = Some m \<Longrightarrow> set (expand tpl_space m) \<subseteq> insert CHR '' '' (set (fst (snd m)))"
  using set_match_group [of rx s m 1] set_match_group [of rx s m 2]
  by (auto simp: expand_def tpl_space_def)

lemma set_re_sub_tpl_space: "set (re_sub rx tpl_space s) \<subseteq> insert CHR '' '' (set s)"
proof (induction rx tpl_space s rule: re_sub.induct)
  case (1 rx s)
  show ?case
  proof (cases "match_at rx s")
    case None
    show ?thesis
    proof (cases s)
      case Nil
      with None show ?thesis by (simp add: re_sub.simps [of rx tpl_space "[]"])
    next
      case (Cons c cs)
      with None "1.hyps"(1) [OF None Cons] show ?thesis
        by (subst re_sub.simps) auto
    qed
  next
    case (Some m)
    obtain g w t where m: "m = (g, w, t)" by (cases m)
    with Some have s: "s = w @ t" by (auto dest: match_at_splits)
    have e: "set (expand tpl_space m) \<subseteq> insert CHR '' '' (set s)"
      using set_expand_tpl_space [OF Some] m s by auto
    show ?thesis
    proof (cases "w = []")
      case True
      show ?thesis
      proof (cases s)
        case Nil
        with Some True m e show ?thesis by (subst re_sub.simps) simp
      next
        case (Cons c cs)
        from True m have "fst (snd m) = []" by simp
        from "1.hyps"(2) [OF Some this Cons] Some True m e Cons show ?thesis
          by (subst re_sub.simps) auto
      qed
    next
      case False
      with m have "fst (snd m) \<noteq> []" by simp
      from "1.hyps"(3) [OF Some this] Some False m e s show ?thesis
        by (subst re_sub.simps) auto
    qed
  qed
qed

lemma set_str_replace: "set (str_replace s old new) \<subseteq> set s \<union> set new"
proof (induction s old new rule: str_replace.induct)
  case (1 s old new)
  show ?case
  proof (cases "old = []")
    case True
    then show ?thesis by (subst str_replace.simps) auto
  next
    case o: False
    show ?thesis
    proof (cases "s = []")
      case True
      with o show ?thesis by (subst str_replace.simps) simp
    next
      case s: False
      show ?thesis
      proof (cases "startswith s old")
        case True
        from "1.IH"(1) [OF o s True] have "set (str_replace (drop (length old) s) old new) \<subseteq> set s \<union> set new"
          using set_drop_subset [of "length old" s] by blast
        with o s True show ?thesis by (subst str_replace.simps) simp
      next
        case False
        from "1.IH"(2) [OF o s False] s have "set (str_replace (tl s) old new) \<subseteq> set s \<union> set new"
          by (cases s) auto
        with o s False show ?thesis by (subst str_replace.simps) (cases s, auto)
      qed
    qed
  qed
qed

lemma no_dot_in_cleaned:
  assumes "CHR ''.'' \<notin> set seg"
  shows "CHR ''.'' \<notin> set (str_replace (re_sub rx_camel tpl_space (re_sub rx_upper_run tpl_space seg)) ''_'' '' '')"
proof -
  have "set (re_sub rx_upper_run tpl_space seg) \<subseteq> insert CHR '' '' (set seg)"
    by (rule set_re_sub_tpl_space)
  moreover have "set (re_sub rx_camel tpl_space (re_sub rx_upper_run tpl_space seg))
      \<subseteq> insert CHR '' '' (set (re_sub rx_upper_run tpl_space seg))"
    by (rule set_re_sub_tpl_space)
  moreover have "set (str_replace (re_sub rx_camel tpl_space (re_sub rx_upper_run tpl_space seg)) ''_'' '' '')
      \<subseteq> set (re_sub rx_camel tpl_space (re_sub rx_upper_run tpl_space seg)) \<union> set '' ''"
    by (rule set_str_replace)
  ultimately have "set (str_replace (re_sub rx_camel tpl_space (re_sub rx_upper_run tpl_space seg)) ''_'' '' '')
      \<subseteq> insert CHR '' '' (set seg)"
    by auto
  with assms show ?thesis by auto
qed

subsection \<open>The claims on the normalizer\<close>

text \<open>
  Claim C5: on the input \<^verbatim>\<open>{x:Static wpf:ConstantsResources.InsertFunctionHeader}\<close> the function
  \<^verbatim>\<open>clean_header\<close> returns exactly \<^verbatim>\<open>Insert Function Header\<close>: braces and dotted prefix are
  gone and a space stands at each PascalCase boundary.
\<close>

theorem C5_clean_header_example:
  "clean_header ''{x:Static wpf:ConstantsResources.InsertFunctionHeader}'' = ''Insert Function Header''"
  by code_simp

text \<open>
  Claim C4 asks for \<^verbatim>\<open>&amp;\<close> to be unescaped last, so that \<^verbatim>\<open>&amp;quot;\<close> becomes \<^verbatim>\<open>&quot;\<close>.
  The source replaces \<^verbatim>\<open>&amp;\<close> third, before \<^verbatim>\<open>&quot;\<close> and \<^verbatim>\<open>&apos;\<close>: the \<^verbatim>\<open>&quot;\<close> it has
  just produced is unescaped again, and \<^verbatim>\<open>clean_tag\<close> returns the double quote character.
\<close>

theorem C4_clean_tag_double_unescape:
  "clean_tag ''&amp;quot;'' = [CHR 0x22] \<and> clean_tag ''&amp;quot;'' \<noteq> ''&quot;''"
  by code_simp

text \<open>
  Claim C9: \<^verbatim>\<open>clean_tag\<close> returns the empty string exactly on the empty string, so the
  leaf test of the source, on the raw \<^verbatim>\<open>Tag\<close> attribute, is the test on the cleaned tag.
\<close>

theorem C9_clean_tag_empty_iff:
  "(clean_tag s = [] \<longleftrightarrow> s = []) \<and>
   ((click = ''Button_Click'' \<and> s \<noteq> []) \<longleftrightarrow> (click = ''Button_Click'' \<and> clean_tag s \<noteq> []))"
proof -
  have "clean_tag s = [] \<longleftrightarrow> s = []"
    by (rule clean_tag_Nil_iff)
  then show ?thesis by simp
qed

text \<open>An instance of C9: an entity alone is cleaned to one character, not to nothing.\<close>

theorem C9_witness:
  "clean_tag ''&lt;'' \<noteq> [] \<and>
   ((''Button_Click'' = ''Button_Click'' \<and> ''&lt;'' \<noteq> [])
      \<longleftrightarrow> (''Button_Click'' = ''Button_Click'' \<and> clean_tag ''&lt;'' \<noteq> []))"
  using C9_clean_tag_empty_iff [of "''&lt;''" "''Button_Click''"] by simp

text \<open>
  Claim C8, amended: for every input string that itself, untrimmed, starts with \<^verbatim>\<open>{\<close> and ends
  with \<^verbatim>\<open>.identifier}\<close>, where the identifier is a non-empty string without \<^verbatim>\<open>.\<close> and \<^verbatim>\<open>}\<close>,
  \<^verbatim>\<open>clean_header\<close> returns the identifier after the two camel-case substitutions and the
  replacement of underscores, and that is not the raw input.
\<close>

theorem C8_resource_reference:
  assumes "startswith header ''{''" and "header = pre @ ''.'' @ seg @ ''}''"
    and "seg \<noteq> []" and "CHR ''.'' \<notin> set seg" and "CHR ''}'' \<notin> set seg"
  shows "clean_header header
           = str_replace (re_sub rx_camel tpl_space (re_sub rx_upper_run tpl_space seg)) ''_'' '' ''
         \<and> clean_header header \<noteq> header"
proof -
  from assms(2) have ne: "header \<noteq> []" and e: "endswith header ''}''"
    by (simp_all add: endswith_def)
  from assms(2) have "re_search rx_last_segment header = Some ([seg], CHR ''.'' # seg @ [CHR ''}''], [])"
    using re_search_last_segment [OF assms(3-5)] by simp
  with ne e assms(1) have eq: "clean_header header
      = str_replace (re_sub rx_camel tpl_space (re_sub rx_upper_run tpl_space seg)) ''_'' '' ''"
    by (simp add: clean_header_def match_group_def Let_def)
  from assms(4) have "CHR ''.'' \<notin> set (clean_header header)"
    unfolding eq by (rule no_dot_in_cleaned)
  moreover from assms(2) have "CHR ''.'' \<in> set header" by simp
  ultimately have "clean_header header \<noteq> header" by auto
  with eq show ?thesis by simp
qed

text \<open>An instance of C8, with an acronym, an underscore and a digit in the identifier.\<close>

theorem C8_witness:
  "startswith ''{x:Static wpf:C.ABCDef_ghi2Jk}'' ''{''
   \<and> ''{x:Static wpf:C.ABCDef_ghi2Jk}'' = ''{x:Static wpf:C'' @ ''.'' @ ''ABCDef_ghi2Jk'' @ ''}''
   \<and> clean_header ''{x:Static wpf:C.ABCDef_ghi2Jk}'' = ''ABC Def ghi2 Jk''"
proof -
  have h1: "startswith ''{x:Static wpf:C.ABCDef_ghi2Jk}'' ''{''" by (simp add: startswith_def)
  have h2: "''{x:Static wpf:C.ABCDef_ghi2Jk}'' = ''{x:Static wpf:C'' @ ''.'' @ ''ABCDef_ghi2Jk'' @ ''}''"
    by simp
  have h3: "''ABCDef_ghi2Jk'' \<noteq> []" by simp
  have h4: "CHR ''.'' \<notin> set ''ABCDef_ghi2Jk''" by simp
  have h5: "CHR ''}'' \<notin> set ''ABCDef_ghi2Jk''" by simp
  have v: "str_replace (re_sub rx_camel tpl_space (re_sub rx_upper_run tpl_space ''ABCDef_ghi2Jk'')) ''_'' '' ''
           = ''ABC Def ghi2 Jk''"
    by code_simp
  from C8_resource_reference [OF h1 h2 h3 h4 h5] v
  have "clean_header ''{x:Static wpf:C.ABCDef_ghi2Jk}'' = ''ABC Def ghi2 Jk''" by simp
  with h1 h2 show ?thesis by blast
qed

text \<open>
  Claim C8 as stated fails on an input with a leading space: its trimmed form is wrapped in
  braces and ends with \<^verbatim>\<open>.Bc}\<close>, but the source tests the untrimmed string, which does not
  start with \<^verbatim>\<open>{\<close>, and returns it unchanged.
\<close>

theorem C8_counterexample:
  "strip '' {a.Bc}'' = ''{a.Bc}''
   \<and> startswith (strip '' {a.Bc}'') ''{''
   \<and> endswith (strip '' {a.Bc}'') ''}''
   \<and> clean_header (strip '' {a.Bc}'') = ''Bc''
   \<and> clean_header '' {a.Bc}'' = '' {a.Bc}''"
  by code_simp

section \<open>Properties of the classifier\<close>

subsection \<open>The three cases of an item\<close>

lemma parse_separator:
  "endswith (tag item) ''Separator'' \<Longrightarrow> parse_menu_item_recursive item = None"
  by (simp add: parse_menu_item_recursive.simps)

lemma parse_leaf:
  "\<not> endswith (tag item) ''Separator'' \<Longrightarrow> passes_leaf_test item \<Longrightarrow>
   parse_menu_item_recursive item = Some (leaf_action item)"
  by (simp add: parse_menu_item_recursive.simps [of item] passes_leaf_test_def leaf_action_def Let_def)

lemma parse_container:
  "\<not> endswith (tag item) ''Separator'' \<Longrightarrow> \<not> passes_leaf_test item \<Longrightarrow>
   parse_menu_item_recursive item =
     (if menu_children item = [] then None
      else structure_result (fst (buckets item)) (snd (buckets item)))"
  by (auto simp: parse_menu_item_recursive.simps [of item] passes_leaf_test_def Let_def
      buckets_def run_children_def menu_children_def)

lemma endswith_last: "endswith s p \<Longrightarrow> p \<noteq> [] \<Longrightarrow> last s = last p"
  unfolding endswith_def
  by (metis last_drop drop_eq_Nil not_le)

lemma menu_item_not_separator:
  "endswith t ''MenuItem'' \<Longrightarrow> \<not> endswith t ''Separator''"
proof
  assume a: "endswith t ''MenuItem''" and b: "endswith t ''Separator''"
  from a have "last t = CHR ''m''" by (auto dest: endswith_last)
  moreover from b have "last t = CHR ''r''" by (auto dest: endswith_last)
  ultimately show False by simp
qed

lemma run_children_Nil [simp]: "run_children [] acc = acc"
  by (simp add: run_children_def)

lemma run_children_Cons [simp]:
  "run_children (c # kids) acc = run_children kids (bucket_child acc c (parse_menu_item_recursive c))"
  by (simp add: run_children_def)

lemma run_children_append [simp]:
  "run_children (xs @ ys) acc = run_children ys (run_children xs acc)"
  by (simp add: run_children_def)

lemma map_of_dict_set: "map_of (dict_set d k v) = (map_of d)(k \<mapsto> v)"
  by (induction d) (auto simp: fun_eq_iff)

lemma keys_dict_set:
  "map fst (dict_set d k v) = (if k \<in> fst ` set d then map fst d else map fst d @ [k])"
  by (induction d) force+

lemma key_set_dict_set: "fst ` set (dict_set d k v) = insert k (fst ` set d)"
proof -
  have "fst ` set (dict_set d k v) = set (map fst (dict_set d k v))" by simp
  also have "\<dots> = insert k (fst ` set d)"
    by (subst keys_dict_set) auto
  finally show ?thesis .
qed

lemma dict_set_not_Nil [simp]: "dict_set d k v \<noteq> []"
  by (cases d) (auto split: if_splits)

lemma distinct_dict_set: "distinct (map fst d) \<Longrightarrow> distinct (map fst (dict_set d k v))"
  by (simp add: keys_dict_set)

lemma set_first_seen [simp]: "set (first_seen xs) = set xs"
  by (induction xs rule: first_seen.induct) auto

lemma distinct_first_seen [simp]: "distinct (first_seen xs)"
  by (induction xs rule: first_seen.induct) auto

text \<open>One step of the loop, by the kind of the child.\<close>

lemma bucket_child_None [simp]: "bucket_child acc c None = acc"
  by (simp add: bucket_child_def)

lemma bucket_child_leaf:
  "passes_leaf_test c \<Longrightarrow> bucket_child acc c (Some p) = (fst acc @ [p], snd acc)"
  by (simp add: bucket_child_def passes_leaf_test_def)

lemma bucket_child_subcategory:
  "\<not> passes_leaf_test c \<Longrightarrow> header_key c \<noteq> [] \<Longrightarrow>
   bucket_child acc c (Some p) = (fst acc, dict_set (snd acc) (header_key c) p)"
  by (auto simp: bucket_child_def passes_leaf_test_def header_key_def)

lemma bucket_child_no_header:
  "\<not> passes_leaf_test c \<Longrightarrow> header_key c = [] \<Longrightarrow> bucket_child acc c (Some p) = acc"
  by (auto simp: bucket_child_def passes_leaf_test_def header_key_def)

lemma run_children_leaf_items:
  "fst (run_children kids acc) =
     fst acc @ map (\<lambda>c. the (parse_menu_item_recursive c))
                  (filter (\<lambda>c. passes_leaf_test c \<and> parse_menu_item_recursive c \<noteq> None) kids)"
proof (induction kids arbitrary: acc)
  case Nil
  then show ?case by simp
next
  case (Cons c kids)
  show ?case
  proof (cases "parse_menu_item_recursive c")
    case None
    with Cons show ?thesis by simp
  next
    case (Some p)
    show ?thesis
    proof (cases "passes_leaf_test c")
      case True
      with Some Cons show ?thesis by (simp add: bucket_child_leaf)
    next
      case False
      with Some Cons show ?thesis
        by (cases "header_key c = []") (simp_all add: bucket_child_subcategory bucket_child_no_header)
    qed
  qed
qed

lemma run_children_keys:
  "map fst (snd (run_children kids acc)) =
     map fst (snd acc) @
     first_seen (filter (\<lambda>h. h \<notin> fst ` set (snd acc)) (map header_key (subcategory_children kids)))"
proof (induction kids arbitrary: acc)
  case Nil
  then show ?case by (simp add: subcategory_children_def)
next
  case (Cons c kids)
  show ?case
  proof (cases "\<not> passes_leaf_test c \<and> parse_menu_item_recursive c \<noteq> None \<and> header_key c \<noteq> []")
    case False
    then have sc: "subcategory_children (c # kids) = subcategory_children kids"
      by (auto simp: subcategory_children_def)
    from False have "snd (bucket_child acc c (parse_menu_item_recursive c)) = snd acc"
      by (cases "parse_menu_item_recursive c"; cases "passes_leaf_test c")
         (auto simp: bucket_child_leaf bucket_child_no_header)
    with Cons [of "bucket_child acc c (parse_menu_item_recursive c)"] sc show ?thesis by simp
  next
    case True
    then obtain p where p: "parse_menu_item_recursive c = Some p" and nl: "\<not> passes_leaf_test c"
      and h: "header_key c \<noteq> []"
      by (auto simp: subcategory_children_def)
    have sc: "subcategory_children (c # kids) = c # subcategory_children kids"
      using p nl h by (simp add: subcategory_children_def)
    let ?S = "snd acc" and ?h = "header_key c"
    have step: "bucket_child acc c (parse_menu_item_recursive c) = (fst acc, dict_set ?S ?h p)"
      using p nl h by (simp add: bucket_child_subcategory)
    show ?thesis
    proof (cases "?h \<in> fst ` set ?S")
      case True
      then have "fst ` set (dict_set ?S ?h p) = fst ` set ?S"
        by (auto simp: key_set_dict_set)
      with True Cons [of "(fst acc, dict_set ?S ?h p)"] step sc show ?thesis
        by (simp add: keys_dict_set)
    next
      case False
      have fs: "fst ` set (dict_set ?S ?h p) = insert ?h (fst ` set ?S)"
        by (rule key_set_dict_set)
      have "filter (\<lambda>y. y \<noteq> ?h) (filter (\<lambda>h. h \<notin> fst ` set ?S) xs)
            = filter (\<lambda>h. h \<notin> insert ?h (fst ` set ?S)) xs" for xs
        by (induction xs) auto
      with False Cons [of "(fst acc, dict_set ?S ?h p)"] step sc fs show ?thesis
        by (simp add: keys_dict_set)
    qed
  qed
qed

lemma run_children_snoc:
  "run_children (kids @ [c]) acc = bucket_child (run_children kids acc) c (parse_menu_item_recursive c)"
  by simp

lemma subcategory_children_snoc:
  "subcategory_children (kids @ [c]) =
     subcategory_children kids @
     (if \<not> passes_leaf_test c \<and> parse_menu_item_recursive c \<noteq> None \<and> header_key c \<noteq> []
      then [c] else [])"
  by (simp add: subcategory_children_def)

lemma run_children_values:
  "map_of (snd (run_children kids acc)) h =
     (if filter (\<lambda>c. header_key c = h) (subcategory_children kids) = [] then map_of (snd acc) h
      else parse_menu_item_recursive (last (filter (\<lambda>c. header_key c = h) (subcategory_children kids))))"
proof (induction kids rule: rev_induct)
  case Nil
  then show ?case by (simp add: subcategory_children_def)
next
  case (snoc c kids)
  let ?acc = "run_children kids acc"
  show ?case
  proof (cases "\<not> passes_leaf_test c \<and> parse_menu_item_recursive c \<noteq> None \<and> header_key c \<noteq> []")
    case False
    then have "snd (bucket_child ?acc c (parse_menu_item_recursive c)) = snd ?acc"
      by (cases "parse_menu_item_recursive c"; cases "passes_leaf_test c")
         (auto simp: bucket_child_leaf bucket_child_no_header)
    with False snoc show ?thesis
      by (simp only: run_children_snoc subcategory_children_snoc if_False append_Nil2)
  next
    case True
    then obtain p where p: "parse_menu_item_recursive c = Some p" by auto
    with True have step: "snd (bucket_child ?acc c (parse_menu_item_recursive c))
        = dict_set (snd ?acc) (header_key c) p"
      by (simp add: bucket_child_subcategory)
    show ?thesis
    proof (cases "header_key c = h")
      case True
      with \<open>\<not> passes_leaf_test c \<and> parse_menu_item_recursive c \<noteq> None \<and> header_key c \<noteq> []\<close> p step
      show ?thesis
        by (simp add: subcategory_children_snoc map_of_dict_set)
    next
      case False
      with \<open>\<not> passes_leaf_test c \<and> parse_menu_item_recursive c \<noteq> None \<and> header_key c \<noteq> []\<close> p step snoc
      show ?thesis
        by (simp add: subcategory_children_snoc map_of_dict_set)
    qed
  qed
qed

lemma run_children_distinct:
  assumes "distinct (map fst (snd acc))"
  shows "distinct (map fst (snd (run_children kids acc)))"
  using assms by (auto simp: run_children_keys)

lemma buckets_keys:
  "map fst (snd (buckets item)) = first_seen (map header_key (subcategory_children (menu_children item)))"
  by (simp add: buckets_def run_children_keys)

lemma buckets_distinct: "distinct (map fst (snd (buckets item)))"
  by (simp add: buckets_keys)

lemma buckets_values:
  "map_of (snd (buckets item)) h =
     (if filter (\<lambda>c. header_key c = h) (subcategory_children (menu_children item)) = [] then None
      else parse_menu_item_recursive
             (last (filter (\<lambda>c. header_key c = h) (subcategory_children (menu_children item)))))"
  by (simp add: buckets_def run_children_values)

lemma buckets_leaf_items:
  "fst (buckets item) = map leaf_action (filter passes_leaf_test (menu_children item))"
proof -
  have *: "parse_menu_item_recursive c = Some (leaf_action c)"
    if "c \<in> set (menu_children item)" "passes_leaf_test c" for c
    using that by (auto simp: menu_children_def intro!: parse_leaf menu_item_not_separator)
  have "filter (\<lambda>c. passes_leaf_test c \<and> parse_menu_item_recursive c \<noteq> None) (menu_children item)
        = filter passes_leaf_test (menu_children item)"
    by (rule filter_cong) (auto simp: *)
  moreover have "map (\<lambda>c. the (parse_menu_item_recursive c)) (filter passes_leaf_test (menu_children item))
        = map leaf_action (filter passes_leaf_test (menu_children item))"
    by (rule map_cong) (auto simp: *)
  ultimately show ?thesis by (simp add: buckets_def run_children_leaf_items)
qed

text \<open>The dict of a mixed node.\<close>

lemma dict_set_fresh: "k \<notin> fst ` set d \<Longrightarrow> dict_set d k v = d @ [(k, v)]"
  by (induction d) auto

lemma dict_update_Nil [simp]: "dict_update d [] = d"
  by (simp add: dict_update_def)

lemma dict_update_Cons [simp]: "dict_update d ((k, v) # e) = dict_update (dict_set d k v) e"
  by (simp add: dict_update_def)

lemma dict_update_append: "dict_update d (e1 @ e2) = dict_update (dict_update d e1) e2"
  by (simp add: dict_update_def)

lemma dict_update_fresh:
  "distinct (map fst e) \<Longrightarrow> fst ` set d \<inter> fst ` set e = {} \<Longrightarrow> dict_update d e = d @ e"
proof (induction e arbitrary: d)
  case Nil
  then show ?case by simp
next
  case (Cons x e)
  obtain k v where x: "x = (k, v)" by (cases x)
  from Cons.prems x have k: "k \<notin> fst ` set d" by auto
  from Cons.prems x have "fst ` set (d @ [(k, v)]) \<inter> fst ` set e = {}" by auto
  moreover from Cons.prems have "distinct (map fst e)" by simp
  ultimately have "dict_update (d @ [(k, v)]) e = (d @ [(k, v)]) @ e" by (rule Cons.IH [rotated])
  with k x show ?case by (simp add: dict_set_fresh)
qed

lemma dict_update_overwrite:
  assumes "distinct (map fst e)" and "map_of e k = Some v"
  shows "dict_update [(k, v0)] e = (k, v) # filter (\<lambda>x. fst x \<noteq> k) e"
proof -
  from assms(2) have "(k, v) \<in> set e" by (rule map_of_SomeD)
  then obtain e1 e2 where e: "e = e1 @ (k, v) # e2" by (auto simp: in_set_conv_decomp)
  with assms(1) have k1: "k \<notin> fst ` set e1" and k2: "k \<notin> fst ` set e2"
    and d1: "distinct (map fst e1)" and d2: "distinct (map fst e2)"
    and dj: "fst ` set e1 \<inter> fst ` set e2 = {}"
    by auto
  have "dict_update [(k, v0)] e1 = [(k, v0)] @ e1"
    using d1 k1 by (intro dict_update_fresh) auto
  then have "dict_update [(k, v0)] e = dict_update ((k, v) # e1) e2"
    by (simp add: e dict_update_append)
  also have "\<dots> = ((k, v) # e1) @ e2"
    using d2 k2 dj by (intro dict_update_fresh) auto
  finally have upd: "dict_update [(k, v0)] e = (k, v) # e1 @ e2" by simp
  have "filter (\<lambda>x. fst x \<noteq> k) xs = xs" if "k \<notin> fst ` set xs" for xs :: "(string \<times> json) list"
    using that by (induction xs) auto
  with k1 k2 have "filter (\<lambda>x. fst x \<noteq> k) e = e1 @ e2" by (simp add: e)
  with upd show ?thesis by simp
qed

lemma is_leaf_action_leaf_action: "is_leaf_action (leaf_action item)"
  by (simp add: is_leaf_action_def leaf_action_def item_data_def Let_def)

lemma structure_result_not_str: "structure_result L S = Some v \<Longrightarrow> \<not> is_str v"
  by (auto simp: structure_result_def split: if_splits)

lemma parse_not_str: "parse_menu_item_recursive item = Some v \<Longrightarrow> \<not> is_str v"
proof -
  assume a: "parse_menu_item_recursive item = Some v"
  then have ns: "\<not> endswith (tag item) ''Separator''" by (auto simp: parse_separator)
  show ?thesis
  proof (cases "passes_leaf_test item")
    case True
    with ns a show ?thesis
      by (auto simp: parse_leaf leaf_action_def item_data_def Let_def)
  next
    case False
    with ns a show ?thesis
      by (auto simp: parse_container structure_result_not_str split: if_splits)
  qed
qed

lemma set_dict_set: "set (dict_set d k v) \<subseteq> insert (k, v) (set d)"
  by (induction d) (auto split: if_splits)

lemma run_children_not_str:
  "\<forall>x \<in> set (snd acc). \<not> is_str (snd x) \<Longrightarrow> \<forall>x \<in> set (snd (run_children kids acc)). \<not> is_str (snd x)"
proof (induction kids arbitrary: acc)
  case Nil
  then show ?case by simp
next
  case (Cons c kids)
  have "\<forall>x \<in> set (snd (bucket_child acc c (parse_menu_item_recursive c))). \<not> is_str (snd x)"
  proof (cases "parse_menu_item_recursive c")
    case None
    with Cons.prems show ?thesis by simp
  next
    case (Some p)
    then have "\<not> is_str p" by (rule parse_not_str)
    with Cons.prems Some set_dict_set [of "snd acc" "clean_header (get c ''Header'' [])" p]
    show ?thesis by (auto simp: bucket_child_def Let_def)
  qed
  then show ?case using Cons.IH by simp
qed

lemma dict_update_head: "\<exists>v' r. dict_update ((k, v) # d) e = (k, v') # r"
proof (induction e arbitrary: v d)
  case Nil
  then show ?case by simp
next
  case (Cons x e)
  obtain k' w where x: "x = (k', w)" by (cases x)
  show ?case using Cons [of _ _] x by (cases "k = k'") auto
qed

lemma structure_result_not_leaf:
  assumes "\<forall>x \<in> set S. \<not> is_str (snd x)" and "structure_result L S = Some v"
  shows "\<not> is_leaf_action v"
proof (cases "L \<noteq> [] \<and> S \<noteq> []")
  case True
  obtain v' r where "dict_update [(''direct'', JList L)] S = (''direct'', v') # r"
    using dict_update_head by blast
  with True assms(2) show ?thesis by (auto simp: structure_result_def is_leaf_action_def)
next
  case False
  show ?thesis
  proof (cases "L \<noteq> []")
    case True
    with False assms(2) show ?thesis by (auto simp: structure_result_def is_leaf_action_def)
  next
    case L: False
    with assms(2) have S: "S \<noteq> []" and v: "v = JDict S" by (auto simp: structure_result_def split: if_splits)
    then obtain x xs where "S = x # xs" by (cases S) auto
    with assms(1) v show ?thesis by (auto simp: is_leaf_action_def)
  qed
qed

lemma container_not_leaf_result:
  assumes "\<not> endswith (tag item) ''Separator''" and "\<not> passes_leaf_test item"
  shows "\<not> is_leaf_result (parse_menu_item_recursive item)"
proof -
  have "\<forall>x \<in> set (snd (buckets item)). \<not> is_str (snd x)"
    unfolding buckets_def by (rule run_children_not_str) simp
  then show ?thesis
    using assms by (auto simp: parse_container is_leaf_result_def dest: structure_result_not_leaf split: option.splits)
qed


subsection \<open>Leaf detection\<close>

text \<open>
  Claim C2, amended: for every node whose tag does not end in \<^verbatim>\<open>Separator\<close>, the
  classification is a LeafAction if and only if the \<^verbatim>\<open>Click\<close> attribute is \<^verbatim>\<open>Button_Click\<close> and
  the cleaned tag is not empty.
\<close>

theorem C2_leaf_detection:
  assumes "\<not> endswith (tag N) ''Separator''"
  shows "is_leaf_result (parse_menu_item_recursive N) \<longleftrightarrow>
         (get N ''Click'' [] = ''Button_Click'' \<and> clean_tag (get N ''Tag'' []) \<noteq> [])"
proof (cases "passes_leaf_test N")
  case True
  with assms have "is_leaf_result (parse_menu_item_recursive N)"
    by (simp add: parse_leaf is_leaf_result_def is_leaf_action_leaf_action)
  with True show ?thesis by (simp add: passes_leaf_test_def clean_tag_Nil_iff)
next
  case False
  with assms have "\<not> is_leaf_result (parse_menu_item_recursive N)"
    by (rule container_not_leaf_result)
  with False show ?thesis by (simp add: passes_leaf_test_def clean_tag_Nil_iff)
qed

text \<open>An instance of C2: a clickable menu item is classified as a LeafAction.\<close>

theorem C2_witness:
  "\<not> endswith (tag (leaf_node ''Foo'' ''t1'')) ''Separator''
   \<and> is_leaf_result (parse_menu_item_recursive (leaf_node ''Foo'' ''t1''))
   \<and> get (leaf_node ''Foo'' ''t1'') ''Click'' [] = ''Button_Click''
   \<and> clean_tag (get (leaf_node ''Foo'' ''t1'') ''Tag'' []) \<noteq> []"
proof -
  have h: "\<not> endswith (tag (leaf_node ''Foo'' ''t1'')) ''Separator''" by code_simp
  have r: "get (leaf_node ''Foo'' ''t1'') ''Click'' [] = ''Button_Click''
           \<and> clean_tag (get (leaf_node ''Foo'' ''t1'') ''Tag'' []) \<noteq> []" by code_simp
  with C2_leaf_detection [OF h] h show ?thesis by simp
qed

text \<open>
  Claim C2 as stated fails on a separator: the separator test comes first, so a separator
  with \<^verbatim>\<open>Click\<close> and \<^verbatim>\<open>Tag\<close> attributes is classified as null.
\<close>

theorem C2_counterexample:
  "get (Element ''Separator'' [(''Tag'', ''t1''), (''Click'', ''Button_Click'')] []) ''Click'' [] = ''Button_Click''
   \<and> clean_tag (get (Element ''Separator'' [(''Tag'', ''t1''), (''Click'', ''Button_Click'')] []) ''Tag'' []) \<noteq> []
   \<and> \<not> is_leaf_result (parse_menu_item_recursive (Element ''Separator'' [(''Tag'', ''t1''), (''Click'', ''Button_Click'')] []))
   \<and> parse_menu_item_recursive (Element ''Separator'' [(''Tag'', ''t1''), (''Click'', ''Button_Click'')] []) = None"
  by code_simp

subsection \<open>Duplicate subcategory keys\<close>

text \<open>
  Claim C1, amended: when several children that become subcategories have the same cleaned
  header, the \<^verbatim>\<open>subcategories\<close> dict has one entry under that key, at the place of the first of
  these children, and its value is the classification of the last of them: the assignment
  \<^verbatim>\<open>subcategories[child_header] = parsed_child\<close> overwrites.
\<close>

theorem C1_duplicate_key_last_wins:
  assumes "subcategory_children (menu_children item) = pre @ c # post"
    and "\<forall>d \<in> set post. header_key d \<noteq> header_key c"
  shows "map_of (snd (buckets item)) (header_key c) = parse_menu_item_recursive c
         \<and> map fst (snd (buckets item))
             = first_seen (map header_key (subcategory_children (menu_children item)))"
proof -
  from assms(2) have "filter (\<lambda>x. header_key x = header_key c) post = []"
    by (auto simp: filter_empty_conv)
  with assms(1) have "filter (\<lambda>x. header_key x = header_key c) (subcategory_children (menu_children item))
      = filter (\<lambda>x. header_key x = header_key c) pre @ [c]"
    by simp
  then have "map_of (snd (buckets item)) (header_key c) = parse_menu_item_recursive c"
    by (simp add: buckets_values)
  then show ?thesis by (simp add: buckets_keys)
qed

text \<open>An instance of C1: two subcategories with the header \<^verbatim>\<open>A\<close>; the second one is kept.\<close>

theorem C1_witness:
  "subcategory_children
     (menu_children (group_node ''S'' [group_node ''A'' [leaf_node ''Foo'' ''t1''],
                                        group_node ''A'' [leaf_node ''Bar'' ''t2'']]))
     = [group_node ''A'' [leaf_node ''Foo'' ''t1'']] @ group_node ''A'' [leaf_node ''Bar'' ''t2''] # []
   \<and> map_of (snd (buckets (group_node ''S'' [group_node ''A'' [leaf_node ''Foo'' ''t1''],
                                              group_node ''A'' [leaf_node ''Bar'' ''t2'']])))
        (header_key (group_node ''A'' [leaf_node ''Bar'' ''t2'']))
      = parse_menu_item_recursive (group_node ''A'' [leaf_node ''Bar'' ''t2''])"
proof -
  let ?a1 = "group_node ''A'' [leaf_node ''Foo'' ''t1'']"
  let ?a2 = "group_node ''A'' [leaf_node ''Bar'' ''t2'']"
  have h1: "subcategory_children (menu_children (group_node ''S'' [?a1, ?a2])) = [?a1] @ ?a2 # []"
    by code_simp
  have h2: "\<forall>d \<in> set []. header_key d \<noteq> header_key ?a2" by simp
  from C1_duplicate_key_last_wins [OF h1 h2] h1 show ?thesis by blast
qed

text \<open>
  Claim C1 as stated fails: of two subcategories with the header \<^verbatim>\<open>A\<close>, the result holds the
  classification of the second, with the tag \<^verbatim>\<open>t2\<close>, not that of the first.
\<close>

theorem C1_counterexample:
  "parse_menu_item_recursive
     (group_node ''S'' [group_node ''A'' [leaf_node ''Foo'' ''t1''],
                        group_node ''A'' [leaf_node ''Bar'' ''t2'']])
     = Some (JDict [(''A'', JList [JDict [(''tag'', JStr ''t2''), (''description'', JStr ''Bar'')]])])
   \<and> parse_menu_item_recursive (group_node ''A'' [leaf_node ''Foo'' ''t1''])
     = Some (JList [JDict [(''tag'', JStr ''t1''), (''description'', JStr ''Foo'')]])
   \<and> header_key (group_node ''A'' [leaf_node ''Foo'' ''t1'']) = ''A''
   \<and> header_key (group_node ''A'' [leaf_node ''Bar'' ''t2'']) = ''A''"
  by code_simp

subsection \<open>The shape of a container's result\<close>

lemma buckets_no_children: "menu_children item = [] \<Longrightarrow> buckets item = ([], [])"
  by (simp add: buckets_def)

text \<open>
  Claim C3, amended: for an item that is a container (no separator, failing the leaf test),
  \<^verbatim>\<open>leaf_items\<close> are the leaf actions of the children that pass the leaf test, in document
  order, and the keys of \<^verbatim>\<open>subcategories\<close> are the cleaned headers of the children that become
  subcategories, in first-seen order. With both non-empty and no subcategory key equal to
  \<^verbatim>\<open>direct\<close> the result is the dict with \<^verbatim>\<open>direct\<close> first, holding \<^verbatim>\<open>leaf_items\<close>, followed by
  the entries of \<^verbatim>\<open>subcategories\<close>; with only leaf items it is the list; with only
  subcategories it is the dict of the subcategories.
\<close>

theorem C3_shape:
  assumes "\<not> endswith (tag item) ''Separator''" and "\<not> passes_leaf_test item"
  shows "fst (buckets item) = map leaf_action (filter passes_leaf_test (menu_children item))
    \<and> map fst (snd (buckets item))
        = first_seen (map header_key (subcategory_children (menu_children item)))
    \<and> (fst (buckets item) \<noteq> [] \<and> snd (buckets item) \<noteq> [] \<and> ''direct'' \<notin> fst ` set (snd (buckets item))
        \<longrightarrow> parse_menu_item_recursive item
              = Some (JDict ((''direct'', JList (fst (buckets item))) # snd (buckets item))))
    \<and> (fst (buckets item) \<noteq> [] \<and> snd (buckets item) = []
        \<longrightarrow> parse_menu_item_recursive item = Some (JList (fst (buckets item))))
    \<and> (fst (buckets item) = [] \<and> snd (buckets item) \<noteq> []
        \<longrightarrow> parse_menu_item_recursive item = Some (JDict (snd (buckets item))))"
proof -
  let ?L = "fst (buckets item)" and ?S = "snd (buckets item)"
  have kids: "menu_children item \<noteq> []" if "?L \<noteq> [] \<or> ?S \<noteq> []"
    using that by (auto simp: buckets_no_children)
  have mixed: "parse_menu_item_recursive item = Some (JDict ((''direct'', JList ?L) # ?S))"
    if "?L \<noteq> []" "?S \<noteq> []" "''direct'' \<notin> fst ` set ?S"
  proof -
    have "dict_update [(''direct'', JList ?L)] ?S = [(''direct'', JList ?L)] @ ?S"
      using that(3) by (intro dict_update_fresh buckets_distinct) simp
    with that kids assms show ?thesis by (simp add: parse_container structure_result_def)
  qed
  have leaves: "parse_menu_item_recursive item = Some (JList ?L)" if "?L \<noteq> []" "?S = []"
    using that kids assms by (simp add: parse_container structure_result_def)
  have subs: "parse_menu_item_recursive item = Some (JDict ?S)" if "?L = []" "?S \<noteq> []"
    using that kids assms by (simp add: parse_container structure_result_def)
  from mixed leaves subs show ?thesis
    by (simp add: buckets_leaf_items [symmetric] buckets_keys [symmetric])
qed

text \<open>An instance of C3: the end-to-end scenario of the specification.\<close>

theorem C3_witness:
  "parse_menu_item_recursive
     (group_node ''{x:Static wpf:C.Sec}''
        [leaf_node ''Foo'' ''t1'', group_node ''Sub'' [leaf_node ''Bar'' ''t2'']])
   = Some (JDict [(''direct'', JList [JDict [(''tag'', JStr ''t1''), (''description'', JStr ''Foo'')]]),
                  (''Sub'', JList [JDict [(''tag'', JStr ''t2''), (''description'', JStr ''Bar'')]])])"
proof -
  let ?ex = "group_node ''{x:Static wpf:C.Sec}''
               [leaf_node ''Foo'' ''t1'', group_node ''Sub'' [leaf_node ''Bar'' ''t2'']]"
  have h1: "\<not> endswith (tag ?ex) ''Separator''" by code_simp
  have h2: "\<not> passes_leaf_test ?ex" by code_simp
  have L: "fst (buckets ?ex) = [JDict [(''tag'', JStr ''t1''), (''description'', JStr ''Foo'')]]"
    by code_simp
  have S: "snd (buckets ?ex) = [(''Sub'', JList [JDict [(''tag'', JStr ''t2''), (''description'', JStr ''Bar'')]])]"
    by code_simp
  from C3_shape [OF h1 h2] show ?thesis unfolding L S by simp
qed

text \<open>
  Claim C3 as stated fails when a subcategory has the key \<^verbatim>\<open>direct\<close>: the result then has
  the subcategory under \<^verbatim>\<open>direct\<close>, not the leaf items, and the key \<^verbatim>\<open>direct\<close> stands before
  the key \<^verbatim>\<open>X\<close> that was seen first.
\<close>

theorem C3_counterexample:
  "fst (buckets (group_node ''S'' [leaf_node ''Foo'' ''t1'', group_node ''X'' [leaf_node ''Bar'' ''t2''],
                                   group_node ''direct'' [leaf_node ''Baz'' ''t3'']]))
     = [JDict [(''tag'', JStr ''t1''), (''description'', JStr ''Foo'')]]
   \<and> snd (buckets (group_node ''S'' [leaf_node ''Foo'' ''t1'', group_node ''X'' [leaf_node ''Bar'' ''t2''],
                                   group_node ''direct'' [leaf_node ''Baz'' ''t3'']]))
     = [(''X'', JList [JDict [(''tag'', JStr ''t2''), (''description'', JStr ''Bar'')]]),
        (''direct'', JList [JDict [(''tag'', JStr ''t3''), (''description'', JStr ''Baz'')]])]
   \<and> parse_menu_item_recursive
       (group_node ''S'' [leaf_node ''Foo'' ''t1'', group_node ''X'' [leaf_node ''Bar'' ''t2''],
                          group_node ''direct'' [leaf_node ''Baz'' ''t3'']])
     = Some (JDict [(''direct'', JList [JDict [(''tag'', JStr ''t3''), (''description'', JStr ''Baz'')]]),
                    (''X'', JList [JDict [(''tag'', JStr ''t2''), (''description'', JStr ''Bar'')]])])
   \<and> parse_menu_item_recursive
       (group_node ''S'' [leaf_node ''Foo'' ''t1'', group_node ''X'' [leaf_node ''Bar'' ''t2''],
                          group_node ''direct'' [leaf_node ''Baz'' ''t3'']])
     \<noteq> Some (JDict ((''direct'', JList [JDict [(''tag'', JStr ''t1''), (''description'', JStr ''Foo'')]])
                      # [(''X'', JList [JDict [(''tag'', JStr ''t2''), (''description'', JStr ''Bar'')]]),
                         (''direct'', JList [JDict [(''tag'', JStr ''t3''), (''description'', JStr ''Baz'')]])]))"
  by code_simp

subsection \<open>A subcategory named direct\<close>

text \<open>
  Claim C10, amended: for a container with at least one leaf-action child and a non-leaf
  child whose cleaned header is \<^verbatim>\<open>direct\<close> and whose classification is not null, the entry
  \<^verbatim>\<open>direct\<close> of the result holds the classification of the last such child and not the list of
  leaf items, which is not empty and appears nowhere in the result: the result is that entry
  followed by the other subcategories.
\<close>

theorem C10_direct_overwrites_leaf_items:
  assumes "\<not> endswith (tag item) ''Separator''" and "\<not> passes_leaf_test item"
    and "c \<in> set (menu_children item)" and "passes_leaf_test c"
    and "d \<in> set (menu_children item)" and "\<not> passes_leaf_test d"
    and "header_key d = ''direct''" and "parse_menu_item_recursive d \<noteq> None"
  shows "fst (buckets item) \<noteq> []
    \<and> (\<exists>v. map_of (snd (buckets item)) ''direct'' = Some v
           \<and> parse_menu_item_recursive
                (last (filter (\<lambda>x. header_key x = ''direct'') (subcategory_children (menu_children item))))
              = Some v
           \<and> parse_menu_item_recursive item
              = Some (JDict ((''direct'', v) # filter (\<lambda>x. fst x \<noteq> ''direct'') (snd (buckets item)))))"
proof -
  let ?L = "fst (buckets item)" and ?S = "snd (buckets item)"
  let ?ds = "filter (\<lambda>x. header_key x = ''direct'') (subcategory_children (menu_children item))"
  from assms(3,4) have L: "?L \<noteq> []"
    by (auto simp: buckets_leaf_items filter_empty_conv)
  from assms(5-8) have "d \<in> set ?ds"
    by (simp add: subcategory_children_def)
  then have ds: "?ds \<noteq> []" by (metis empty_iff empty_set)
  then have val: "map_of ?S ''direct'' = parse_menu_item_recursive (last ?ds)"
    by (simp add: buckets_values)
  from ds have "last ?ds \<in> set ?ds" by (rule last_in_set)
  then have "parse_menu_item_recursive (last ?ds) \<noteq> None"
    by (simp add: subcategory_children_def)
  then obtain v where v: "parse_menu_item_recursive (last ?ds) = Some v" by auto
  with val have m: "map_of ?S ''direct'' = Some v" by simp
  then have S: "?S \<noteq> []" by auto
  from assms(3) have kids: "menu_children item \<noteq> []" by auto
  have "dict_update [(''direct'', JList ?L)] ?S = (''direct'', v) # filter (\<lambda>x. fst x \<noteq> ''direct'') ?S"
    using buckets_distinct m by (rule dict_update_overwrite)
  with L S kids assms(1,2)
  have "parse_menu_item_recursive item = Some (JDict ((''direct'', v) # filter (\<lambda>x. fst x \<noteq> ''direct'') ?S))"
    by (simp add: parse_container structure_result_def)
  with L m v show ?thesis by blast
qed

text \<open>An instance of C10: the leaf action \<^verbatim>\<open>t1\<close> is not in the result.\<close>

theorem C10_witness:
  "parse_menu_item_recursive
     (group_node ''S'' [leaf_node ''Foo'' ''t1'', group_node ''direct'' [leaf_node ''Baz'' ''t3'']])
   = Some (JDict [(''direct'', JList [JDict [(''tag'', JStr ''t3''), (''description'', JStr ''Baz'')]])])
   \<and> fst (buckets (group_node ''S'' [leaf_node ''Foo'' ''t1'', group_node ''direct'' [leaf_node ''Baz'' ''t3'']]))
     = [JDict [(''tag'', JStr ''t1''), (''description'', JStr ''Foo'')]]"
proof -
  let ?c = "leaf_node ''Foo'' ''t1''"
  let ?d = "group_node ''direct'' [leaf_node ''Baz'' ''t3'']"
  let ?ex = "group_node ''S'' [?c, ?d]"
  have h1: "\<not> endswith (tag ?ex) ''Separator''" by code_simp
  have h2: "\<not> passes_leaf_test ?ex" by code_simp
  have h3: "?c \<in> set (menu_children ?ex)" by code_simp
  have h4: "passes_leaf_test ?c" by code_simp
  have h5: "?d \<in> set (menu_children ?ex)" by code_simp
  have h6: "\<not> passes_leaf_test ?d" by code_simp
  have h7: "header_key ?d = ''direct''" by code_simp
  have h8: "parse_menu_item_recursive ?d \<noteq> None" by code_simp
  have S: "snd (buckets ?ex) = [(''direct'', JList [JDict [(''tag'', JStr ''t3''), (''description'', JStr ''Baz'')]])]"
    by code_simp
  have L: "fst (buckets ?ex) = [JDict [(''tag'', JStr ''t1''), (''description'', JStr ''Foo'')]]"
    by code_simp
  from C10_direct_overwrites_leaf_items [OF h1 h2 h3 h4 h5 h6 h7 h8] L show ?thesis
    unfolding S by auto
qed

text \<open>
  Claim C10 as stated fails when the child with the header \<^verbatim>\<open>direct\<close> is classified as null,
  here because it has no children: it is skipped, and the result is the list of leaf items.
\<close>

theorem C10_counterexample:
  "passes_leaf_test (leaf_node ''Foo'' ''t1'')
   \<and> \<not> passes_leaf_test (group_node ''direct'' [])
   \<and> header_key (group_node ''direct'' []) = ''direct''
   \<and> menu_children (group_node ''S'' [leaf_node ''Foo'' ''t1'', group_node ''direct'' []])
       = [leaf_node ''Foo'' ''t1'', group_node ''direct'' []]
   \<and> parse_menu_item_recursive (group_node ''S'' [leaf_node ''Foo'' ''t1'', group_node ''direct'' []])
       = Some (JList [JDict [(''tag'', JStr ''t1''), (''description'', JStr ''Foo'')]])"
  by code_simp

subsection \<open>The recursion limit\<close>

text \<open>
  Under the recursion limit the call on an item returns exactly when the depth of its
  recursion is within the limit, and then it returns the value of
  \<open>parse_menu_item_recursive\<close>; otherwise it raises \<^verbatim>\<open>RecursionError\<close>.
\<close>

lemma call_depth_pos: "0 < call_depth item"
  by (subst call_depth.simps) simp

lemma foldl_max_le: "foldl max m (map f xs) \<le> (n::nat) \<longleftrightarrow> m \<le> n \<and> (\<forall>x \<in> set xs. f x \<le> n)"
  by (induction xs arbitrary: m) auto

lemma call_depth_container:
  "\<not> endswith (tag item) ''Separator'' \<Longrightarrow> \<not> passes_leaf_test item \<Longrightarrow>
   call_depth item \<le> Suc n \<longleftrightarrow> (\<forall>k \<in> set (menu_children item). call_depth k \<le> n)"
  by (subst call_depth.simps) (simp add: foldl_max_le)

lemma call_depth_one:
  "endswith (tag item) ''Separator'' \<or> passes_leaf_test item \<Longrightarrow> call_depth item = 1"
  by (subst call_depth.simps) simp

lemma limited_loop_Inl:
  "foldl (\<lambda>acc child. case acc of Inl e \<Rightarrow> Inl e
                       | Inr a \<Rightarrow> (case parse_menu_item_limited n child of
                                    Inl e \<Rightarrow> Inl e
                                  | Inr parsed_child \<Rightarrow> Inr (bucket_child a child parsed_child)))
         (Inl e) kids = Inl e"
  by (induction kids) simp_all

lemma limited_loop:
  assumes "\<And>k. k \<in> set kids \<Longrightarrow>
             parse_menu_item_limited n k =
               (if call_depth k \<le> n then Inr (parse_menu_item_recursive k) else Inl RecursionError)"
  shows "foldl (\<lambda>acc child. case acc of Inl e \<Rightarrow> Inl e
                       | Inr a \<Rightarrow> (case parse_menu_item_limited n child of
                                    Inl e \<Rightarrow> Inl e
                                  | Inr parsed_child \<Rightarrow> Inr (bucket_child a child parsed_child)))
         (Inr a) kids
         = (if \<forall>k \<in> set kids. call_depth k \<le> n then Inr (run_children kids a) else Inl RecursionError)"
  using assms
proof (induction kids arbitrary: a)
  case Nil
  then show ?case by simp
next
  case (Cons c kids)
  have c: "parse_menu_item_limited n c =
             (if call_depth c \<le> n then Inr (parse_menu_item_recursive c) else Inl RecursionError)"
    by (rule Cons.prems) simp
  have rest: "\<And>k. k \<in> set kids \<Longrightarrow>
             parse_menu_item_limited n k =
               (if call_depth k \<le> n then Inr (parse_menu_item_recursive k) else Inl RecursionError)"
    by (rule Cons.prems) simp
  show ?case
  proof (cases "call_depth c \<le> n")
    case True
    with c Cons.IH [OF rest] show ?thesis by simp
  next
    case False
    with c show ?thesis by (simp add: limited_loop_Inl)
  qed
qed

lemma parse_menu_item_limited_eq:
  "parse_menu_item_limited n item =
     (if call_depth item \<le> n then Inr (parse_menu_item_recursive item) else Inl RecursionError)"
proof (induction n arbitrary: item)
  case 0
  show ?case using call_depth_pos [of item] by (simp add: parse_menu_item_limited.simps)
next
  case (Suc n)
  show ?case
  proof (cases "endswith (tag item) ''Separator''")
    case True
    then show ?thesis
      by (simp add: parse_menu_item_limited.simps call_depth_one parse_separator)
  next
    case ns: False
    show ?thesis
    proof (cases "passes_leaf_test item")
      case True
      with ns show ?thesis
        by (simp add: parse_menu_item_limited.simps call_depth_one parse_leaf
            passes_leaf_test_def leaf_action_def Let_def)
    next
      case nl: False
      show ?thesis
      proof (cases "menu_children item = []")
        case True
        with ns nl have "call_depth item \<le> Suc n" by (simp add: call_depth_container)
        moreover from True ns nl have "parse_menu_item_limited (Suc n) item = Inr None"
          by (auto simp: parse_menu_item_limited.simps passes_leaf_test_def menu_children_def Let_def)
        ultimately show ?thesis using True ns nl by (simp add: parse_container)
      next
        case False
        have loop: "foldl (\<lambda>acc child. case acc of Inl e \<Rightarrow> Inl e
                       | Inr a \<Rightarrow> (case parse_menu_item_limited n child of
                                    Inl e \<Rightarrow> Inl e
                                  | Inr parsed_child \<Rightarrow> Inr (bucket_child a child parsed_child)))
                 (Inr ([], [])) (menu_children item)
               = (if \<forall>k \<in> set (menu_children item). call_depth k \<le> n
                  then Inr (buckets item) else Inl RecursionError)"
          unfolding buckets_def by (rule limited_loop) (rule Suc.IH)
        from False ns nl have "parse_menu_item_limited (Suc n) item =
            (case foldl (\<lambda>acc child. case acc of Inl e \<Rightarrow> Inl e
                       | Inr a \<Rightarrow> (case parse_menu_item_limited n child of
                                    Inl e \<Rightarrow> Inl e
                                  | Inr parsed_child \<Rightarrow> Inr (bucket_child a child parsed_child)))
                 (Inr ([], [])) (menu_children item) of
               Inl e \<Rightarrow> Inl e
             | Inr acc \<Rightarrow> Inr (structure_result (fst acc) (snd acc)))"
          by (auto simp: parse_menu_item_limited.simps passes_leaf_test_def menu_children_def Let_def)
        with loop False ns nl show ?thesis
          by (simp add: call_depth_container parse_container)
      qed
    qed
  qed
qed

lemma parse_menu_item_limited_returns:
  "parse_menu_item_limited n item = Inr r \<Longrightarrow> r = parse_menu_item_recursive item"
  by (simp add: parse_menu_item_limited_eq split: if_splits)

section \<open>Properties of the root-level pass\<close>

text \<open>
  Claim C7: when the wrapped input is not well-formed, that is when the XML parser raises,
  \<^verbatim>\<open>parse_xaml_insert_menu\<close> returns the empty dict: no exception leaves the function and no
  part of a document is returned.
\<close>

theorem C7_parse_failure_empty:
  assumes "fromstring (wrap_content xaml_content) = Inl e"
  shows "parse_xaml_insert_menu limit fromstring xaml_content = []"
  using assms by (simp add: parse_xaml_insert_menu_def)

text \<open>An instance of C7: a parser that rejects the unclosed fragment \<^verbatim>\<open><MenuItem\<close>.\<close>

theorem C7_witness:
  "(\<lambda>s. if s = wrap_content ''<MenuItem'' then Inl (ParseError ''unclosed token'') else Inr (Element ''root'' [] []))
     (wrap_content ''<MenuItem'') = Inl (ParseError ''unclosed token'')
   \<and> parse_xaml_insert_menu 1000
       (\<lambda>s. if s = wrap_content ''<MenuItem'' then Inl (ParseError ''unclosed token'') else Inr (Element ''root'' [] []))
       ''<MenuItem'' = []"
proof -
  let ?f = "\<lambda>s. if s = wrap_content ''<MenuItem'' then Inl (ParseError ''unclosed token'')
                 else Inr (Element ''root'' [] [])"
  have h: "?f (wrap_content ''<MenuItem'') = Inl (ParseError ''unclosed token'')" by simp
  from C7_parse_failure_empty [of ?f "''<MenuItem''" _ 1000, OF h] h show ?thesis by simp
qed

lemma truthy_leaf_action: "truthy (leaf_action c)"
  by (simp add: leaf_action_def item_data_def Let_def)

lemma root_step_other_key:
  "root_step limit result d = Inr r \<Longrightarrow> header_key d \<noteq> k \<Longrightarrow> map_of r k = map_of result k"
  by (auto simp: root_step_def Let_def header_key_def map_of_dict_set
      split: if_splits sum.splits option.splits)

lemma root_step_returns:
  assumes "classified d \<longrightarrow> call_depth d \<le> limit"
  shows "\<exists>r. root_step limit result d = Inr r"
proof (cases "classified d")
  case True
  with assms have "parse_menu_item_limited limit d = Inr (parse_menu_item_recursive d)"
    by (simp add: parse_menu_item_limited_eq)
  then show ?thesis by (simp add: root_step_def Let_def)
next
  case False
  then show ?thesis by (auto simp: root_step_def classified_def Let_def)
qed

lemma root_loop_returns:
  assumes "\<forall>d \<in> set ds. classified d \<longrightarrow> call_depth d \<le> limit"
  shows "\<exists>r. foldl (\<lambda>acc menu_item. case acc of Inl e \<Rightarrow> Inl e
                                     | Inr result \<Rightarrow> root_step limit result menu_item)
                  (Inr result) ds = Inr r
             \<and> (\<forall>k. (\<forall>d \<in> set ds. header_key d \<noteq> k) \<longrightarrow> map_of r k = map_of result k)"
  using assms
proof (induction ds arbitrary: result)
  case Nil
  then show ?case by simp
next
  case (Cons d ds)
  from Cons.prems have "classified d \<longrightarrow> call_depth d \<le> limit" by simp
  then obtain r1 where r1: "root_step limit result d = Inr r1"
    using root_step_returns by blast
  from Cons.prems have "\<forall>d \<in> set ds. classified d \<longrightarrow> call_depth d \<le> limit" by simp
  from Cons.IH [OF this, of r1] obtain r where
    r: "foldl (\<lambda>acc menu_item. case acc of Inl e \<Rightarrow> Inl e
                                | Inr result \<Rightarrow> root_step limit result menu_item)
              (Inr r1) ds = Inr r"
    and keep: "\<forall>k. (\<forall>d \<in> set ds. header_key d \<noteq> k) \<longrightarrow> map_of r k = map_of r1 k"
    by blast
  have "map_of r k = map_of result k" if "\<forall>x \<in> set (d # ds). header_key x \<noteq> k" for k
    using that keep root_step_other_key [OF r1, of k] by simp
  with r r1 show ?case by simp
qed

lemma root_loop_raises:
  "foldl (\<lambda>acc menu_item. case acc of Inl e \<Rightarrow> Inl e
                            | Inr result \<Rightarrow> root_step limit result menu_item)
         (Inl e) ds = Inl e"
  by (induction ds) simp_all

text \<open>
  Claim C6: for a child of the root whose tag ends in \<^verbatim>\<open>MenuItem\<close>, with a non-empty header,
  that passes the leaf test, the loop body of the root-level pass assigns its LeafAction
  itself under the cleaned header, whenever the interpreter allows the call of the
  classifier at all. The document returned has it under that key when no later child of
  the root has the same cleaned header and no other child of the root that the pass
  classifies is nested deeper than the recursion limit allows.
\<close>

theorem C6_root_leaf_section:
  assumes "endswith (tag c) ''MenuItem''" and "get c ''Header'' [] \<noteq> []" and "passes_leaf_test c"
    and "0 < limit"
  shows "root_step limit result c
           = Inr (dict_set result (clean_header (get c ''Header'' [])) (leaf_action c))
    \<and> is_leaf_action (leaf_action c)
    \<and> map_of (dict_set result (clean_header (get c ''Header'' [])) (leaf_action c))
         (clean_header (get c ''Header'' [])) = Some (leaf_action c)
    \<and> (fromstring (wrap_content xaml_content) = Inr root \<and> children root = pre @ c # post
         \<and> (\<forall>d \<in> set post. header_key d \<noteq> header_key c)
         \<and> (\<forall>d \<in> set (pre @ post). classified d \<longrightarrow> call_depth d \<le> limit)
        \<longrightarrow> map_of (parse_xaml_insert_menu limit fromstring xaml_content)
              (clean_header (get c ''Header'' [])) = Some (leaf_action c))"
proof -
  let ?key = "clean_header (get c ''Header'' [])"
  let ?loop = "foldl (\<lambda>acc menu_item. case acc of Inl e \<Rightarrow> Inl e
                                      | Inr result \<Rightarrow> root_step limit result menu_item)"
  from assms(1) have ns: "\<not> endswith (tag c) ''Separator''" by (rule menu_item_not_separator)
  then have p: "parse_menu_item_recursive c = Some (leaf_action c)" using assms(3) by (rule parse_leaf)
  from assms(3,4) have "call_depth c \<le> limit" by (simp add: call_depth_one)
  with p have "parse_menu_item_limited limit c = Inr (Some (leaf_action c))"
    by (simp add: parse_menu_item_limited_eq)
  with assms(1,2) have step: "root_step limit result c = Inr (dict_set result ?key (leaf_action c))"
    for result
    by (simp add: root_step_def Let_def truthy_leaf_action)
  have look: "map_of (dict_set result ?key (leaf_action c)) ?key = Some (leaf_action c)" for result
    by (simp add: map_of_dict_set)
  have "map_of (parse_xaml_insert_menu limit fromstring xaml_content) ?key = Some (leaf_action c)"
    if r: "fromstring (wrap_content xaml_content) = Inr root" and ch: "children root = pre @ c # post"
      and last: "\<forall>d \<in> set post. header_key d \<noteq> header_key c"
      and fits: "\<forall>d \<in> set (pre @ post). classified d \<longrightarrow> call_depth d \<le> limit"
  proof -
    from fits have "\<forall>d \<in> set pre. classified d \<longrightarrow> call_depth d \<le> limit" by simp
    from root_loop_returns [OF this, of "[]"] obtain r1 where r1: "?loop (Inr []) pre = Inr r1"
      by blast
    from fits have "\<forall>d \<in> set post. classified d \<longrightarrow> call_depth d \<le> limit" by simp
    from root_loop_returns [OF this, of "dict_set r1 ?key (leaf_action c)"] obtain r2 where
      r2: "?loop (Inr (dict_set r1 ?key (leaf_action c))) post = Inr r2"
      and keep: "\<forall>k. (\<forall>d \<in> set post. header_key d \<noteq> k)
                   \<longrightarrow> map_of r2 k = map_of (dict_set r1 ?key (leaf_action c)) k"
      by blast
    have "?loop (Inr []) (children root) = Inr r2"
      using r1 r2 step [of r1] by (simp add: ch)
    with r have "parse_xaml_insert_menu limit fromstring xaml_content = r2"
      by (simp add: parse_xaml_insert_menu_def)
    moreover from keep last have "map_of r2 ?key = Some (leaf_action c)"
      by (simp add: header_key_def look)
    ultimately show ?thesis by simp
  qed
  with step look show ?thesis by (simp add: is_leaf_action_leaf_action)
qed

text \<open>
  An instance of C6: a root with a section nested three deep and a clickable menu item,
  under a limit of three nested calls.
\<close>

theorem C6_witness:
  "endswith (tag (leaf_node ''Foo'' ''t1'')) ''MenuItem''
   \<and> get (leaf_node ''Foo'' ''t1'') ''Header'' [] \<noteq> []
   \<and> passes_leaf_test (leaf_node ''Foo'' ''t1'')
   \<and> root_step 3 [] (leaf_node ''Foo'' ''t1'')
       = Inr [(''Foo'', JDict [(''tag'', JStr ''t1''), (''description'', JStr ''Foo'')])]
   \<and> call_depth (group_node ''Sec'' [group_node ''Sub'' [leaf_node ''Bar'' ''t2'']]) = 3
   \<and> map_of (parse_xaml_insert_menu 3
               (\<lambda>s. Inr (Element ''root'' []
                      [group_node ''Sec'' [group_node ''Sub'' [leaf_node ''Bar'' ''t2'']],
                       leaf_node ''Foo'' ''t1'']))
               ''<MenuItem/>'') ''Foo''
       = Some (JDict [(''tag'', JStr ''t1''), (''description'', JStr ''Foo'')])"
proof -
  let ?c = "leaf_node ''Foo'' ''t1''"
  let ?g = "group_node ''Sec'' [group_node ''Sub'' [leaf_node ''Bar'' ''t2'']]"
  let ?root = "Element ''root'' [] [?g, ?c]"
  have h1: "endswith (tag ?c) ''MenuItem''" by code_simp
  have h2: "get ?c ''Header'' [] \<noteq> []" by code_simp
  have h3: "passes_leaf_test ?c" by code_simp
  have h4: "(0::nat) < 3" by simp
  have k: "clean_header (get ?c ''Header'' []) = ''Foo''" by code_simp
  have la: "leaf_action ?c = JDict [(''tag'', JStr ''t1''), (''description'', JStr ''Foo'')]" by code_simp
  have d: "call_depth ?g = 3" by code_simp
  have f: "(\<lambda>s. Inr ?root) (wrap_content ''<MenuItem/>'') = (Inr ?root :: error + element)" by simp
  have ch: "children ?root = [?g] @ ?c # []" by simp
  have fits: "\<forall>x \<in> set ([?g] @ []). classified x \<longrightarrow> call_depth x \<le> 3" using d by simp
  note inst = C6_root_leaf_section [OF h1 h2 h3 h4, of "[]" "\<lambda>s. Inr ?root" "''<MenuItem/>''" ?root "[?g]" "[]"]
  from inst have s: "root_step 3 [] ?c = Inr [(''Foo'', leaf_action ?c)]"
    unfolding k by simp
  from inst f ch fits have
    "map_of (parse_xaml_insert_menu 3 (\<lambda>s. Inr ?root) ''<MenuItem/>'') ''Foo'' = Some (leaf_action ?c)"
    unfolding k by simp
  with s h1 h2 h3 d la show ?thesis by simp
qed

text \<open>
  The same root under a limit of two nested calls: the classification of the nested section
  raises \<^verbatim>\<open>RecursionError\<close>, the exception is caught and the document is empty, whether the
  nested section comes before or after the clickable menu item.
\<close>

lemma root_pass_recursion_error_example:
  "call_depth (group_node ''Sec'' [group_node ''Sub'' [leaf_node ''Bar'' ''t2'']]) = 3
   \<and> parse_xaml_insert_menu 2
       (\<lambda>s. Inr (Element ''root'' []
              [group_node ''Sec'' [group_node ''Sub'' [leaf_node ''Bar'' ''t2'']],
               leaf_node ''Foo'' ''t1'']))
       ''<MenuItem/>'' = []
   \<and> parse_xaml_insert_menu 2
       (\<lambda>s. Inr (Element ''root'' []
              [leaf_node ''Foo'' ''t1'',
               group_node ''Sec'' [group_node ''Sub'' [leaf_node ''Bar'' ''t2'']]]))
       ''<MenuItem/>'' = []"
  by code_simp

end
